theory Spec2Isabelle
  imports Main "HOL-Library.Sublist"
begin

section \<open>Go values used by the client\<close>

text \<open>
  A Go \<^verbatim>\<open>[]byte\<close> and a Go \<^verbatim>\<open>string\<close> are both sequences of bytes; the
  model uses \<^typ>\<open>char list\<close> for both.  The regular expression engine of Go walks a
  string rune by rune; the model of the engine below walks the list element by element, so
  for the regular expression each list element stands for one rune (this is exact for
  ASCII text, which is what fence markers and newlines are).
\<close>

type_synonym byte = char

text \<open>
  Go \<^verbatim>\<open>error\<close> values.  \<open>New m\<close> is \<^verbatim>\<open>errors.New(m)\<close> (any plain error value,
  such as a failed read of the transport or the sentinel a handler returns),
  \<open>Errorf m e\<close> is \<^verbatim>\<open>fmt.Errorf(m + ": %w", e)\<close>: a new error value that wraps \<open>e\<close>.
  \<open>EOF\<close> is \<^verbatim>\<open>io.EOF\<close>; \<open>ErrNoProgress\<close> is \<^verbatim>\<open>io.ErrNoProgress\<close>;
  \<open>ErrAdvanceTooFar\<close> is \<^verbatim>\<open>bufio.ErrAdvanceTooFar\<close>.  A nil error is \<open>None\<close>.
\<close>

datatype goerror =
    EOF
  | ErrNoProgress
  | ErrAdvanceTooFar
  | New string
  | Errorf string goerror

section \<open>The underlying byte stream\<close>

text \<open>
  The body of the HTTP response is an \<^verbatim>\<open>io.ReadCloser\<close>.  It is modelled by the list of
  the results its successive \<^verbatim>\<open>Read\<close> calls give: the bytes of one chunk and the error
  returned with them.  After the list is used up, \<^verbatim>\<open>Read\<close> returns \<^verbatim>\<open>0, io.EOF\<close>.
\<close>

type_synonym Reader = "(byte list \<times> goerror option) list"

definition maxConsecutiveEmptyReads :: nat where
  "maxConsecutiveEmptyReads = 100"

text \<open>
  The read loop at the end of \<^verbatim>\<open>bufio.Scanner.Scan\<close>: read until some bytes or an
  error arrive; more than \<open>maxConsecutiveEmptyReads\<close> empty reads in a row give
  \<^verbatim>\<open>io.ErrNoProgress\<close>.  The result is the bytes appended to the buffer, the error to
  set (if any) and the rest of the stream.
\<close>

fun readMore :: "nat \<Rightarrow> Reader \<Rightarrow> byte list \<times> goerror option \<times> Reader" where
  "readMore loop [] = ([], Some EOF, [])"
| "readMore loop ((p, e) # rest) =
     (case e of
        Some err \<Rightarrow> (p, Some err, rest)
      | None \<Rightarrow>
          if p \<noteq> [] then (p, None, rest)
          else if loop + 1 > maxConsecutiveEmptyReads then ([], Some ErrNoProgress, rest)
          else readMore (loop + 1) rest)"

section \<open>The Delimiter Scanner (scanner.go)\<close>

text \<open>\<^verbatim>\<open>bytes.Index(s, sep)\<close>: the index of the first occurrence of \<open>sep\<close> in \<open>s\<close>,
  \<open>None\<close> for Go's \<open>-1\<close>.\<close>

fun Index :: "byte list \<Rightarrow> byte list \<Rightarrow> nat option" where
  "Index [] sep = (if sep = [] then Some 0 else None)"
| "Index (x # t) sep =
     (if prefix sep (x # t) then Some 0 else map_option Suc (Index t sep))"

text \<open>
  A \<^verbatim>\<open>bufio.SplitFunc\<close> returns \<open>(advance, token, err)\<close>; a nil token is \<open>None\<close>.
\<close>

type_synonym SplitFunc = "byte list \<Rightarrow> bool \<Rightarrow> nat \<times> byte list option \<times> goerror option"

text \<open>\<^verbatim>\<open>SplitAt\<close>, scanner.go lines 17 to 41.\<close>

definition SplitAt :: "string \<Rightarrow> SplitFunc" where
  "SplitAt substring data atEOF =
     (let searchBytes = substring;
          searchLength = length substring;
          dataLen = length data
      in if atEOF \<and> dataLen = 0 then (0, None, None)
         else (case Index data searchBytes of
                 Some i \<Rightarrow> (i + searchLength, Some (take i data), None)
               | None \<Rightarrow>
                   if atEOF then (dataLen, Some data, None)
                   else (0, None, None)))"

text \<open>
  The state of a \<^verbatim>\<open>bufio.Scanner\<close>: the reader \<open>s.r\<close>, the unprocessed bytes
  \<open>s.buf[s.start:s.end]\<close>, the last token \<open>s.token\<close> and the sticky error \<open>s.err\<close>.
  The buffer is taken to be unbounded: the limit \<^verbatim>\<open>bufio.MaxScanTokenSize\<close> on the
  length of one token is not part of the model.
\<close>

record Scanner =
  sc_r :: Reader
  sc_buf :: "byte list"
  sc_token :: "byte list option"
  sc_err :: "goerror option"

definition setErr :: "goerror \<Rightarrow> Scanner \<Rightarrow> Scanner" where
  "setErr e s = (if sc_err s = None \<or> sc_err s = Some EOF then s\<lparr>sc_err := Some e\<rparr> else s)"

text \<open>\<^verbatim>\<open>Scanner.Err\<close>: the first error that was not \<^verbatim>\<open>io.EOF\<close>.\<close>

definition Err :: "Scanner \<Rightarrow> goerror option" where
  "Err s = (if sc_err s = Some EOF then None else sc_err s)"

definition Bytes :: "Scanner \<Rightarrow> byte list" where
  "Bytes s = (case sc_token s of None \<Rightarrow> [] | Some t \<Rightarrow> t)"

text \<open>One pass of the read loop of \<^verbatim>\<open>Scan\<close> on the scanner state.\<close>

definition fill :: "Scanner \<Rightarrow> Scanner" where
  "fill s =
     (case readMore 0 (sc_r s) of
        (p, e, rest) \<Rightarrow>
          (let s1 = s\<lparr>sc_r := rest, sc_buf := sc_buf s @ p\<rparr>
           in case e of None \<Rightarrow> s1 | Some x \<Rightarrow> setErr x s1))"

lemma readMore_length:
  "readMore n r = (p, e, rest) \<Longrightarrow> length rest \<le> length r \<and> (e = None \<longrightarrow> length rest < length r)"
proof (induction n r rule: readMore.induct)
  case (1 loop)
  then show ?case by auto
next
  case (2 loop p' e' rest')
  then show ?case
    by (cases e'; cases "p' = []"; cases "loop + 1 > maxConsecutiveEmptyReads") (auto split: if_splits)
qed

lemma fill_decreases:
  "sc_err s = None \<Longrightarrow>
   length (sc_r (fill s)) + (if sc_err (fill s) = None then 1 else 0) < length (sc_r s) + 1"
proof -
  assume a: "sc_err s = None"
  obtain p e rest where r: "readMore 0 (sc_r s) = (p, e, rest)"
    by (cases "readMore 0 (sc_r s)") auto
  from readMore_length [OF r] a r show ?thesis
    by (cases e) (auto simp: fill_def setErr_def)
qed

text \<open>
  \<^verbatim>\<open>bufio.Scanner.Scan\<close> with the split function \<open>split\<close>: the split function is
  called on the unprocessed bytes whenever there are some or an error (end of data
  included) has been seen, with \<open>atEOF\<close> true exactly when \<open>s.err\<close> is set; when it asks
  for more data the scanner reads and tries again.  The result is the value \<open>Scan\<close>
  returns and the scanner afterwards.  Left out, because \<open>SplitAt\<close> with a non-empty
  separator never gets there: the value \<^verbatim>\<open>ErrFinalToken\<close>, a negative advance, and the
  panic after a hundred empty tokens that do not advance at the end of the input.
\<close>

function Scan :: "SplitFunc \<Rightarrow> Scanner \<Rightarrow> bool \<times> Scanner" where
  "Scan split s =
     (if sc_buf s \<noteq> [] \<or> sc_err s \<noteq> None then
        (case split (sc_buf s) (sc_err s \<noteq> None) of
           (advance, token, Some e) \<Rightarrow> (False, setErr e s)
         | (advance, token, None) \<Rightarrow>
             if advance > length (sc_buf s) then (False, setErr ErrAdvanceTooFar s)
             else if token \<noteq> None
               then (True, s\<lparr>sc_buf := drop advance (sc_buf s), sc_token := token\<rparr>)
             else if sc_err s \<noteq> None
               then (False, s\<lparr>sc_buf := [], sc_token := token\<rparr>)
             else Scan split (fill (s\<lparr>sc_buf := drop advance (sc_buf s), sc_token := token\<rparr>)))
      else Scan split (fill s))"
  by pat_completeness auto
termination
proof (relation "measure (\<lambda>(split, s). length (sc_r s) + (if sc_err s = None then 1 else 0))",
       goal_cases)
  case 1
  then show ?case by simp
next
  case 2
  then show ?case
    using fill_decreases [of "s\<lparr>sc_buf := drop advance (sc_buf s), sc_token := token\<rparr>" for s advance token]
    by simp
next
  case 3
  then show ?case using fill_decreases by simp
qed

declare Scan.simps [simp del]

text \<open>
  \<^verbatim>\<open>NewSplitScanner\<close>, scanner.go lines 10 to 14.  The split function that
  \<^verbatim>\<open>sc.Split(SplitAt(splitChar))\<close> installs is not stored in the record: every call
  of \<open>Scan\<close> on this scanner is written \<open>Scan (SplitAt splitChar)\<close>.
\<close>

definition NewScanner :: "Reader \<Rightarrow> Scanner" where
  "NewScanner body = \<lparr>sc_r = body, sc_buf = [], sc_token = None, sc_err = None\<rparr>"

definition NewSplitScanner :: "Reader \<Rightarrow> string \<Rightarrow> Scanner" where
  "NewSplitScanner body splitChar = NewScanner body"

text \<open>
  Progress of the scanner: what is left of the stream, counted so that every successful
  \<open>Scan\<close> with a non-empty separator makes it smaller.
\<close>

definition remaining :: "Scanner \<Rightarrow> nat" where
  "remaining s = length (sc_buf s) + length (concat (map fst (sc_r s))) + length (sc_r s)
     + (if sc_err s = None then 1 else 0)"

lemma readMore_bytes:
  "readMore n r = (p, e, rest) \<Longrightarrow> length p + length (concat (map fst rest)) \<le> length (concat (map fst r))"
proof (induction n r rule: readMore.induct)
  case (1 loop)
  then show ?case by auto
next
  case (2 loop p' e' rest')
  then show ?case
    by (cases e'; cases "p' = []"; cases "loop + 1 > maxConsecutiveEmptyReads") (auto split: if_splits)
qed

lemma fill_remaining: 
  assumes "sc_err s = None" shows "remaining (fill s) < remaining s"
proof -
  obtain p e rest where r: "readMore 0 (sc_r s) = (p, e, rest)"
    by (cases "readMore 0 (sc_r s)") auto
  from readMore_length [OF r] readMore_bytes [OF r] assms r show ?thesis
    by (cases e) (auto simp: fill_def setErr_def remaining_def)
qed

lemma Index_bound: "Index d sep = Some i \<Longrightarrow> i + length sep \<le> length d"
proof (induction d arbitrary: i)
  case Nil
  then show ?case by (simp split: if_splits)
next
  case (Cons x t)
  show ?case
  proof (cases "prefix sep (x # t)")
    case True
    with Cons.prems have "i = 0" by simp
    with True prefix_length_le [of sep "x # t"] show ?thesis by simp
  next
    case False
    with Cons.prems obtain j where "Index t sep = Some j" "i = Suc j" by auto
    with Cons.IH show ?thesis by simp
  qed
qed

lemma SplitAt_token:
  assumes "sep \<noteq> []" "SplitAt sep d atEOF = (adv, Some t, e)"
  shows "0 < adv \<and> adv \<le> length d \<and> e = None"
  using assms Index_bound [of d sep]
  by (auto simp: SplitAt_def Let_def split: if_splits option.splits)

lemma SplitAt_no_token:
  assumes "SplitAt sep d atEOF = (adv, None, e)"
  shows "adv = 0 \<and> e = None"
  using assms
  by (auto simp: SplitAt_def Let_def split: if_splits option.splits)

lemma Scan_remaining:
  assumes "sep \<noteq> []"
  shows "Scan (SplitAt sep) s = (True, s') \<Longrightarrow> remaining s' < remaining s"
proof (induction "SplitAt sep" s arbitrary: s' rule: Scan.induct)
  case (1 s)
  show ?case
  proof (cases "sc_buf s \<noteq> [] \<or> sc_err s \<noteq> None")
    case True
    obtain adv tok e where sp: "SplitAt sep (sc_buf s) (sc_err s \<noteq> None) = (adv, tok, e)"
      by (cases "SplitAt sep (sc_buf s) (sc_err s \<noteq> None)") auto
    show ?thesis
    proof (cases tok)
      case None
      with sp SplitAt_no_token have z: "adv = 0" "e = None" by blast+
      show ?thesis
      proof (cases "sc_err s = None")
        case True': True
        let ?s1 = "s\<lparr>sc_buf := drop adv (sc_buf s), sc_token := tok\<rparr>"
        from True sp None z True' "1.prems"
        have "Scan (SplitAt sep) (fill ?s1) = (True, s')"
          by (subst (asm) Scan.simps) simp
        with "1.hyps"(1) [OF True sp [symmetric] refl] None z True'
        have "remaining s' < remaining (fill ?s1)" by simp
        moreover have "remaining (fill ?s1) < remaining ?s1"
          using True' by (intro fill_remaining) simp
        moreover have "remaining ?s1 = remaining s" using z by (simp add: remaining_def)
        ultimately show ?thesis by simp
      next
        case False
        with True sp None z "1.prems" show ?thesis
          by (subst (asm) Scan.simps) simp
      qed
    next
      case (Some t)
      with sp SplitAt_token [OF assms] have b: "0 < adv" "adv \<le> length (sc_buf s)" "e = None"
        by blast+
      with True sp Some "1.prems"
      have "s' = s\<lparr>sc_buf := drop adv (sc_buf s), sc_token := tok\<rparr>"
        by (subst (asm) Scan.simps) simp
      with b show ?thesis by (simp add: remaining_def)
    qed
  next
    case False
    then have e: "sc_err s = None" by simp
    from False "1.prems" have "Scan (SplitAt sep) (fill s) = (True, s')"
      by (subst (asm) Scan.simps) simp
    with "1.hyps"(2) [OF False] have "remaining s' < remaining (fill s)" by simp
    with fill_remaining [OF e] show ?thesis by simp
  qed
qed

text \<open>
  The loop \<^verbatim>\<open>for sc.Scan() { parts = append(parts, sc.Text()) }\<close> of the scanner's
  tests: all tokens of a stream.  With an empty separator and a stream that is not empty
  the Go loop does not end (the scanner keeps returning empty tokens without reading);
  a loop that does not end is the value \<open>None\<close>.
\<close>

partial_function (option) scanAll :: "SplitFunc \<Rightarrow> Scanner \<Rightarrow> byte list list option" where
  "scanAll split s =
     (case Scan split s of
        (ok, s') \<Rightarrow>
          if ok then Option.bind (scanAll split s') (\<lambda>parts. Some (Bytes s' # parts))
          else Some [])"

declare scanAll.simps [code]

section \<open>The Fence Extractor: regular expression and ParseCodeBlock\<close>

text \<open>
  Go's \<^verbatim>\<open>regexp\<close> package returns the leftmost match and, among the matches that
  start there, the one a backtracking search finds first.  The model is that backtracking
  search for the fragment of the syntax that \<^verbatim>\<open>CodeBlockRegExp\<close> uses: a
  sequence of items, each a single character class or a repetition \<open>+\<close> (greedy) or
  \<open>+?\<close> (lazy) of a character class.
\<close>

datatype cls = Lit char | NonSpace | AnyChar

datatype item = One cls | PlusGreedy cls | PlusLazy cls

text \<open>The class \<^verbatim>\<open>\s\<close> of Go is tab, newline, form feed, carriage return and space.\<close>

definition isSpace :: "char \<Rightarrow> bool" where
  "isSpace c = (c = CHR 0x09 \<or> c = CHR 0x0A \<or> c = CHR 0x0C \<or> c = CHR 0x0D \<or> c = CHR 0x20)"

fun accepts :: "cls \<Rightarrow> char \<Rightarrow> bool" where
  "accepts (Lit a) c = (c = a)"
| "accepts NonSpace c = (\<not> isSpace c)"
| "accepts AnyChar c = True"

text \<open>
  \<open>backtrack re s\<close> matches \<open>re\<close> at the start of \<open>s\<close>.  The result gives, for
  each item of \<open>re\<close>, the number of characters it matched.  A greedy repetition first
  tries to take one more character and only then to go on with the rest of the expression;
  a lazy one first tries the rest of the expression.
\<close>

fun backtrack :: "item list \<Rightarrow> string \<Rightarrow> nat list option" where
  "backtrack [] s = Some []"
| "backtrack (One c # re) [] = None"
| "backtrack (One c # re) (x # xs) =
     (if accepts c x then map_option (Cons 1) (backtrack re xs) else None)"
| "backtrack (PlusGreedy c # re) [] = None"
| "backtrack (PlusGreedy c # re) (x # xs) =
     (if accepts c x then
        (case backtrack (PlusGreedy c # re) xs of
           Some (n # ns) \<Rightarrow> Some (Suc n # ns)
         | _ \<Rightarrow> map_option (Cons 1) (backtrack re xs))
      else None)"
| "backtrack (PlusLazy c # re) [] = None"
| "backtrack (PlusLazy c # re) (x # xs) =
     (if accepts c x then
        (case backtrack re xs of
           Some ns \<Rightarrow> Some (1 # ns)
         | None \<Rightarrow>
             (case backtrack (PlusLazy c # re) xs of
                Some (n # ns) \<Rightarrow> Some (Suc n # ns)
              | _ \<Rightarrow> None))
      else None)"

text \<open>The leftmost match in \<open>s\<close>: its offset and the lengths of its items.\<close>

fun search :: "item list \<Rightarrow> string \<Rightarrow> (nat \<times> nat list) option" where
  "search re [] = map_option (Pair 0) (backtrack re [])"
| "search re (x # xs) =
     (case backtrack re (x # xs) of
        Some ns \<Rightarrow> Some (0, ns)
      | None \<Rightarrow> map_option (\<lambda>(i, ns). (Suc i, ns)) (search re xs))"

text \<open>
  The loop of \<^verbatim>\<open>Regexp.allMatches\<close> behind \<^verbatim>\<open>FindAllStringSubmatch(s, -1)\<close>:
  successive matches, each search starting where the previous match ended; an empty match
  moves the position by one character and is dropped when it sits right at the end of the
  previous match.  A match \<open>m\<close> of \<open>search\<close> is its offset \<open>fst m\<close> from the position and the
  lengths \<open>snd m\<close> of its items; the result lists each match by its start in \<open>s\<close> and
  these lengths.  The match ends at \<open>pos\<close> (Go: \<^verbatim>\<open>matches[1] == pos\<close>) exactly when
  \<open>fst m + sum_list (snd m) = 0\<close>.
\<close>

function allMatches :: "item list \<Rightarrow> string \<Rightarrow> nat \<Rightarrow> nat option \<Rightarrow> (nat \<times> nat list) list" where
  "allMatches re s pos prevMatchEnd =
     (if pos > length s then []
      else (case search re (drop pos s) of
              None \<Rightarrow> []
            | Some m \<Rightarrow>
                if fst m + sum_list (snd m) = 0
                then (if Some (pos + fst m) = prevMatchEnd then [] else [(pos + fst m, snd m)])
                     @ allMatches re s (pos + 1) (Some (pos + fst m + sum_list (snd m)))
                else (pos + fst m, snd m)
                     # allMatches re s (pos + fst m + sum_list (snd m))
                         (Some (pos + fst m + sum_list (snd m)))))"
  by pat_completeness auto
termination
proof (relation "measure (\<lambda>(re, s, pos, prevMatchEnd). Suc (length s) - pos)", goal_cases)
  case 1
  then show ?case by simp
next
  case 2
  then show ?case by simp
next
  case (3 re s pos prevMatchEnd m)
  then have "Suc (length s) - (pos + fst m + sum_list (snd m)) < Suc (length s) - pos"
    by linarith
  then show ?case by simp
qed

declare allMatches.simps [simp del]

text \<open>
  The text of item \<open>k\<close> of a match, and the submatches \<^verbatim>\<open>match[0]\<close>,
  \<^verbatim>\<open>match[1]\<close>, ... of every match: the whole match, then the text of each
  capture group (\<open>groups\<close> lists the items that are capture groups).
\<close>

definition segment :: "string \<Rightarrow> nat \<Rightarrow> nat list \<Rightarrow> nat \<Rightarrow> string" where
  "segment s b ns k = take (ns ! k) (drop (b + sum_list (take k ns)) s)"

definition FindAllStringSubmatch :: "item list \<Rightarrow> nat list \<Rightarrow> string \<Rightarrow> string list list" where
  "FindAllStringSubmatch re groups s =
     map (\<lambda>(b, ns). take (sum_list ns) (drop b s) # map (segment s b ns) groups)
       (allMatches re s 0 None)"

definition tick :: char where
  "tick = CHR 0x60"

definition nl :: char where
  "nl = CHR 0x0A"

text \<open>
  \<^verbatim>\<open>CodeBlockRegExp\<close>, line 276:
  \<^verbatim>\<open>(?s)``+(\S+)(.+?)\n``+\<close>, that is: a backtick, one or more backticks, group 1 =
  one or more characters that are not white space (greedy), group 2 = one or more
  characters of any kind, newline included by the flag \<open>s\<close> (lazy), a newline, a
  backtick, one or more backticks.
\<close>

definition CodeBlockRegExp :: "item list" where
  "CodeBlockRegExp =
     [One (Lit tick), PlusGreedy (Lit tick),
      PlusGreedy NonSpace,
      PlusLazy AnyChar,
      One (Lit nl), One (Lit tick), PlusGreedy (Lit tick)]"

definition CodeBlockGroups :: "nat list" where
  "CodeBlockGroups = [2, 3]"

record CodeBlock =
  Type :: string
  Code :: string

text \<open>\<^verbatim>\<open>ParseCodeBlock\<close>, lines 280 to 293; the loop over the matches first.\<close>

fun ParseCodeBlock_loop :: "string list list \<Rightarrow> CodeBlock list \<Rightarrow> CodeBlock list" where
  "ParseCodeBlock_loop [] blocks = blocks"
| "ParseCodeBlock_loop (match # rest) blocks =
     (if length match > 2
      then ParseCodeBlock_loop rest (blocks @ [\<lparr>Type = match ! 1, Code = match ! 2\<rparr>])
      else ParseCodeBlock_loop rest blocks)"

definition ParseCodeBlock :: "string \<Rightarrow> CodeBlock list" where
  "ParseCodeBlock text' =
     ParseCodeBlock_loop (FindAllStringSubmatch CodeBlockRegExp CodeBlockGroups text') []"

section \<open>The Event Decoder\<close>

text \<open>
  \<^verbatim>\<open>Response\<close>, lines 98 to 103: every field is a pointer, \<open>None\<close> is nil.  The
  time stamp is kept as the text it was sent as.
\<close>

record Response =
  Model :: "string option"
  CreatedAt :: "string option"
  Response :: "string option"
  Done :: "bool option"

text \<open>
  What \<^verbatim>\<open>encoding/json\<close> finds in one token for the fields of \<^verbatim>\<open>Response\<close>: a
  member is absent from the object, is the literal \<^verbatim>\<open>null\<close>, or has a value.  The
  parser itself is a parameter of the model: it gives the members found or the error of
  \<^verbatim>\<open>json.Unmarshal\<close>.
\<close>

datatype 'a member = Absent | Null | Val 'a

record Members =
  m_model :: "string member"
  m_created_at :: "string member"
  m_response :: "string member"
  m_done :: "bool member"

type_synonym Parser = "byte list \<Rightarrow> goerror + Members"

text \<open>
  \<^verbatim>\<open>json.Unmarshal(data, &res)\<close> stores into the existing \<open>res\<close>: a pointer field is
  left as it was when its member is absent, set to nil on \<^verbatim>\<open>null\<close>, and set to the
  value otherwise.
\<close>

fun store :: "'a member \<Rightarrow> 'a option \<Rightarrow> 'a option" where
  "store Absent old = old"
| "store Null old = None"
| "store (Val v) old = Some v"

definition Unmarshal :: "Parser \<Rightarrow> byte list \<Rightarrow> Response \<Rightarrow> goerror option \<times> Response" where
  "Unmarshal parse data res =
     (case parse data of
        Inl e \<Rightarrow> (Some e, res)
      | Inr m \<Rightarrow>
          (None, \<lparr>Model = store (m_model m) (Model res),
                  CreatedAt = store (m_created_at m) (CreatedAt res),
                  Response = store (m_response m) (Response res),
                  Done = store (m_done m) (Done res)\<rparr>))"

section \<open>The Stream Coordinator: Query\<close>

text \<open>
  The two handlers of a \<^verbatim>\<open>Request\<close> (lines 86 and 87) are Go closures; a handler is a
  function of its argument and of the state \<open>'h\<close> its closure holds, and returns its
  error and the new state.  A nil handler is \<open>None\<close>.
\<close>

record 'h Request =
  OnJson :: "(Response \<Rightarrow> 'h \<Rightarrow> goerror option \<times> 'h) option"
  OnCodeBlock :: "(CodeBlock list \<Rightarrow> 'h \<Rightarrow> goerror option \<times> 'h) option"

text \<open>
  What \<open>Query\<close> does that can be seen from outside, in order: a token taken from the
  scanner, a call of \<open>OnJson\<close> and a call of \<open>OnCodeBlock\<close>, each call with its
  argument and the error it returned.
\<close>

datatype action =
    Scanned "byte list"
  | JsonCall Response "goerror option"
  | BlockCall "CodeBlock list" "goerror option"

text \<open>\<open>Query\<close> returns its error (\<open>None\<close> is nil: success), or the goroutine panics.\<close>

datatype outcome = Return "goerror option" | Panic

text \<open>
  Lines 253 to 257: the fragment is joined to the text collected so far, the whole text
  is parsed, and the text is cleared when blocks were found.  The result is the new text
  and the blocks.
\<close>

definition analyse :: "string \<Rightarrow> string \<Rightarrow> string \<times> CodeBlock list" where
  "analyse text' fragment =
     (let joined = text' @ fragment;
          blocks = ParseCodeBlock joined
      in (if length blocks > 0 then [] else joined, blocks))"

text \<open>
  Lines 244 to 248 of the loop: the decoded event goes to \<open>OnJson\<close>, if there is one.
  The result is the error of the handler, its new state and the actions.
\<close>

definition notify ::
  "'h Request \<Rightarrow> Response \<Rightarrow> 'h \<Rightarrow> action list \<Rightarrow> goerror option \<times> 'h \<times> action list" where
  "notify request res h acts =
     (case OnJson request of
        None \<Rightarrow> (None, h, acts)
      | Some f \<Rightarrow> (case f res h of (e, h1) \<Rightarrow> (e, h1, acts @ [JsonCall res e])))"

text \<open>
  Lines 253 to 262 of the loop, run when \<open>shouldAnalyse\<close> is true: the fragment of the
  event is appended and parsed, and a non-empty list of blocks goes to \<open>OnCodeBlock\<close>.
  The first component of the result is \<open>None\<close> when the loop goes on, and what \<open>Query\<close>
  returns otherwise; the others are the new text, the new state of the handlers and the
  actions.  Dereferencing the nil pointer \<open>res.Response\<close> (line 253) panics, and so would
  a call of a nil \<open>OnCodeBlock\<close>.
\<close>

definition deliver ::
  "'h Request \<Rightarrow> Response \<Rightarrow> string \<Rightarrow> 'h \<Rightarrow> action list
     \<Rightarrow> outcome option \<times> string \<times> 'h \<times> action list" where
  "deliver request res text' h acts =
     (case Response res of
        None \<Rightarrow> (Some Panic, text', h, acts)
      | Some fragment \<Rightarrow>
          (case analyse text' fragment of
             (text1, blocks) \<Rightarrow>
               if length blocks > 0 then
                 (case OnCodeBlock request of
                    None \<Rightarrow> (Some Panic, text1, h, acts)
                  | Some g \<Rightarrow>
                      (case g blocks h of
                         (Some e, h1) \<Rightarrow>
                           (Some (Return (Some (Errorf
                              ''failed to process ollama response code block'' e))),
                            text1, h1, acts @ [BlockCall blocks (Some e)])
                       | (None, h1) \<Rightarrow> (None, text1, h1, acts @ [BlockCall blocks None])))
               else (None, text1, h, acts)))"

text \<open>Lines 243 to 264: what the loop does with a decoded event.\<close>

definition dispatch ::
  "'h Request \<Rightarrow> bool \<Rightarrow> Response \<Rightarrow> string \<Rightarrow> 'h \<Rightarrow> action list
     \<Rightarrow> outcome option \<times> string \<times> 'h \<times> action list" where
  "dispatch request shouldAnalyse res text' h acts =
     (case notify request res h acts of
        (Some e, h1, acts1) \<Rightarrow>
          (Some (Return (Some (Errorf ''failed to process ollama response'' e))), text', h1, acts1)
      | (None, h1, acts1) \<Rightarrow>
          if shouldAnalyse then deliver request res text' h1 acts1
          else (None, text', h1, acts1))"

text \<open>
  The loop of \<open>Query\<close>, lines 233 to 266, on the scanner made by
  \<^verbatim>\<open>NewSplitScanner(resp.Body, "\n")\<close>.  The arguments are the variables the loop
  reads and writes: \<open>scanner\<close>, \<open>res\<close>, \<open>text\<close> and the named result \<open>err\<close> (nil
  whenever the loop goes round again), and with them the state of the handlers and the
  actions so far.
\<close>

function Query_loop ::
  "Parser \<Rightarrow> 'h Request \<Rightarrow> bool \<Rightarrow> Scanner \<Rightarrow> Response \<Rightarrow> string \<Rightarrow> goerror option \<Rightarrow> 'h
     \<Rightarrow> action list \<Rightarrow> outcome \<times> 'h \<times> action list" where
  "Query_loop parse request shouldAnalyse scanner res text' err h acts =
     (case Scan (SplitAt [nl]) scanner of
        (ok, scanner1) \<Rightarrow>
          if \<not> ok then (Return err, h, acts)
          else
            (case Err scanner1 of
               Some e \<Rightarrow>
                 (Return (Some (Errorf ''failed to read ollama response'' e)), h,
                  acts @ [Scanned (Bytes scanner1)])
             | None \<Rightarrow>
                 (case Unmarshal parse (Bytes scanner1) res of
                    (Some e, res1) \<Rightarrow>
                      (Return (Some (Errorf ''failed to unmarshal ollama response'' e)), h,
                       acts @ [Scanned (Bytes scanner1)])
                  | (None, res1) \<Rightarrow>
                      (case dispatch request shouldAnalyse res1 text' h
                              (acts @ [Scanned (Bytes scanner1)]) of
                         (Some out, text1, h1, acts1) \<Rightarrow> (out, h1, acts1)
                       | (None, text1, h1, acts1) \<Rightarrow>
                           Query_loop parse request shouldAnalyse scanner1 res1 text1 None h1 acts1))))"
  by pat_completeness auto
termination
proof (relation "measure (\<lambda>(parse, request, shouldAnalyse, scanner, rest). remaining scanner)",
       goal_cases)
  case 1
  then show ?case by simp
next
  case 2
  then show ?case using Scan_remaining [of "[nl]"] by simp
qed

declare Query_loop.simps [simp del]

text \<open>
  \<open>Query\<close>, lines 219 to 267: what it does once the HTTP request has been answered with
  status 200 and \<open>body\<close> is \<^verbatim>\<open>resp.Body\<close>.  \<open>parse\<close> is the JSON parser and \<open>h\<close>
  the state of the handlers when \<open>Query\<close> is called.
\<close>

definition emptyResponse :: Response where
  "emptyResponse = \<lparr>Model = None, CreatedAt = None, Response = None, Done = None\<rparr>"

definition Query :: "Parser \<Rightarrow> 'h Request \<Rightarrow> Reader \<Rightarrow> 'h \<Rightarrow> outcome \<times> 'h \<times> action list" where
  "Query parse request body h =
     (let scanner = NewSplitScanner body [nl];
          res = emptyResponse;
          shouldAnalyse = (case OnCodeBlock request of None \<Rightarrow> False | Some g \<Rightarrow> True)
      in Query_loop parse request shouldAnalyse scanner res [] None h [])"

section \<open>Properties of the scanner with SplitAt\<close>

lemma Index_Nil_sep: "sep \<noteq> [] \<Longrightarrow> Index [] sep = None"
  by simp

lemma Scan_SplitAt:
  assumes "sep \<noteq> []"
  shows "Scan (SplitAt sep) s =
     (case Index (sc_buf s) sep of
        Some i \<Rightarrow>
          (True, s\<lparr>sc_buf := drop (i + length sep) (sc_buf s), sc_token := Some (take i (sc_buf s))\<rparr>)
      | None \<Rightarrow>
          if sc_err s \<noteq> None then
            (if sc_buf s = [] then (False, s\<lparr>sc_buf := [], sc_token := None\<rparr>)
             else (True, s\<lparr>sc_buf := [], sc_token := Some (sc_buf s)\<rparr>))
          else Scan (SplitAt sep)
                 (fill (if sc_buf s = [] then s else s\<lparr>sc_buf := sc_buf s, sc_token := None\<rparr>)))"
proof (cases "Index (sc_buf s) sep")
  case None
  then show ?thesis
    by (subst Scan.simps) (auto simp: SplitAt_def Let_def)
next
  case (Some i)
  with assms have ne: "sc_buf s \<noteq> []" by (cases "sc_buf s") auto
  from Index_bound [OF Some] have "\<not> length (sc_buf s) < i + length sep" by simp
  with Some ne show ?thesis
    by (subst Scan.simps) (simp add: SplitAt_def Let_def)
qed


text \<open>
  The tokens of a byte sequence as the specification describes them: what stands before the
  first separator, then the tokens of what follows it; bytes left without a separator are
  a last token; no bytes, no token.
\<close>

function tokensOf :: "byte list \<Rightarrow> byte list \<Rightarrow> byte list list" where
  "tokensOf sep d =
     (if d = [] \<or> sep = [] then []
      else (case Index d sep of
              None \<Rightarrow> [d]
            | Some i \<Rightarrow> take i d # tokensOf sep (drop (i + length sep) d)))"
  by pat_completeness auto
termination
  by (relation "measure (\<lambda>(sep, d). length d)") auto

declare tokensOf.simps [simp del]

text \<open>A stream that gives the chunks one per read, without error, and then ends.\<close>

definition chunked :: "byte list list \<Rightarrow> Reader" where
  "chunked cs = map (\<lambda>c. (c, None)) cs"

text \<open>
  \<open>calm n cs\<close>: the chunks never hold more than \<open>maxConsecutiveEmptyReads\<close> empty
  chunks in a row, \<open>n\<close> empty reads having been seen already.
\<close>

fun calm :: "nat \<Rightarrow> byte list list \<Rightarrow> bool" where
  "calm n [] = True"
| "calm n (c # cs) =
     (if c = [] then n < maxConsecutiveEmptyReads \<and> calm (Suc n) cs else calm 0 cs)"

lemma calm_nonempty: "[] \<notin> set cs \<Longrightarrow> calm n cs"
  by (induction cs arbitrary: n) auto

lemma readMore_calm:
  "calm n cs \<Longrightarrow>
   \<exists>p e rest. readMore n (chunked cs) = (p, e, chunked rest) \<and> calm 0 rest
      \<and> concat cs = p @ concat rest
      \<and> (e = None \<or> (e = Some EOF \<and> p = [] \<and> rest = []))"
proof (induction cs arbitrary: n)
  case Nil
  then show ?case by (simp add: chunked_def)
next
  case (Cons c cs)
  show ?case
  proof (cases "c = []")
    case True
    with Cons.prems have "n < maxConsecutiveEmptyReads" "calm (Suc n) cs" by simp_all
    with Cons.IH [of "Suc n"] True show ?thesis by (simp add: chunked_def)
  next
    case False
    with Cons.prems have "calm 0 cs" by simp
    with False show ?thesis by (auto simp: chunked_def)
  qed
qed

lemma Index_append:
  "Index d sep = Some i \<Longrightarrow> Index (d @ r) sep = Some i"
proof (induction d arbitrary: i)
  case Nil
  then show ?case by (cases r) (auto split: if_splits)
next
  case (Cons x t)
  show ?case
  proof (cases "prefix sep (x # t)")
    case True
    with Cons.prems have "i = 0" by simp
    moreover from True have "prefix sep ((x # t) @ r)" using prefix_prefix by blast
    ultimately show ?thesis by simp
  next
    case False
    with Cons.prems obtain j where j: "Index t sep = Some j" "i = Suc j" by auto
    from j(1) Index_bound [OF j(1)] have "length sep \<le> length t" by simp
    then have "length sep \<le> length (x # t)" by simp
    with False have "\<not> prefix sep ((x # t) @ r)"
      using prefix_length_prefix [of sep "(x # t) @ r" "x # t"] by auto
    with Cons.IH [OF j(1)] j show ?thesis by simp
  qed
qed


lemma tokensOf_Nil: "tokensOf sep [] = []"
  by (subst tokensOf.simps) simp

lemma tokensOf_last: "sep \<noteq> [] \<Longrightarrow> d \<noteq> [] \<Longrightarrow> Index d sep = None \<Longrightarrow> tokensOf sep d = [d]"
  by (subst tokensOf.simps) simp

lemma tokensOf_token:
  "sep \<noteq> [] \<Longrightarrow> Index d sep = Some i \<Longrightarrow>
     tokensOf sep (d @ r) = take i d # tokensOf sep (drop (i + length sep) d @ r)"
proof -
  assume sep: "sep \<noteq> []" and i: "Index d sep = Some i"
  from Index_bound [OF i] have le: "i + length sep \<le> length d" .
  with sep have "d \<noteq> []" by auto
  with sep Index_append [OF i, of r] le show ?thesis
    by (subst tokensOf.simps) simp
qed

lemma fill_calm:
  assumes "sc_r s = chunked cs" "calm 0 cs" "sc_err s = None"
  shows "\<exists>p rest. sc_buf (fill s) = sc_buf s @ p \<and> concat cs = p @ concat rest
           \<and> ((sc_err (fill s) = None \<and> sc_r (fill s) = chunked rest \<and> calm 0 rest)
               \<or> (sc_err (fill s) = Some EOF \<and> p = [] \<and> rest = []))"
proof -
  from readMore_calm [OF assms(2)] obtain p e rest where
    r: "readMore 0 (chunked cs) = (p, e, chunked rest)" "calm 0 rest" "concat cs = p @ concat rest"
       "e = None \<or> (e = Some EOF \<and> p = [] \<and> rest = [])"
    by blast
  from r(4) show ?thesis
  proof
    assume "e = None"
    with r assms show ?thesis by (auto simp: fill_def)
  next
    assume "e = Some EOF \<and> p = [] \<and> rest = []"
    with r assms show ?thesis by (auto simp: fill_def setErr_def)
  qed
qed

lemma scanAll_unfold:
  "scanAll split s =
     (if fst (Scan split s)
      then Option.bind (scanAll split (snd (Scan split s))) (\<lambda>parts. Some (Bytes (snd (Scan split s)) # parts))
      else Some [])"
  by (subst scanAll.simps) (simp add: case_prod_unfold)

lemma scanAll_cong:
  assumes "Scan split s = Scan split s'"
  shows "scanAll split s = scanAll split s'"
proof -
  have "scanAll split s =
     (if fst (Scan split s')
      then Option.bind (scanAll split (snd (Scan split s'))) (\<lambda>parts. Some (Bytes (snd (Scan split s')) # parts))
      else Some [])"
    unfolding assms [symmetric] by (rule scanAll_unfold)
  also have "\<dots> = scanAll split s'" by (rule scanAll_unfold [symmetric])
  finally show ?thesis .
qed

lemma scanAll_tokens:
  assumes sep: "sep \<noteq> []"
  shows "(sc_err s = None \<longrightarrow> sc_r s = chunked cs \<longrightarrow> calm 0 cs \<longrightarrow>
            scanAll (SplitAt sep) s = Some (tokensOf sep (sc_buf s @ concat cs)))
       \<and> (sc_err s \<noteq> None \<longrightarrow> scanAll (SplitAt sep) s = Some (tokensOf sep (sc_buf s)))"
proof (induction s arbitrary: cs rule: measure_induct_rule [of remaining])
  case (less s)
  show ?case
  proof (cases "Index (sc_buf s) sep")
    case (Some i)
    let ?s' = "s\<lparr>sc_buf := drop (i + length sep) (sc_buf s), sc_token := Some (take i (sc_buf s))\<rparr>"
    from Some have sc: "Scan (SplitAt sep) s = (True, ?s')"
      by (simp add: Scan_SplitAt [OF sep])
    from Scan_remaining [OF sep sc] have sm: "remaining ?s' < remaining s" .
    have un: "scanAll (SplitAt sep) s
              = Option.bind (scanAll (SplitAt sep) ?s') (\<lambda>parts. Some (take i (sc_buf s) # parts))"
      by (subst scanAll_unfold) (simp add: sc Bytes_def)
    show ?thesis
    proof (intro conjI impI)
      assume a: "sc_err s = None" "sc_r s = chunked cs" "calm 0 cs"
      with less.IH [OF sm, of cs]
      have "scanAll (SplitAt sep) ?s' = Some (tokensOf sep (drop (i + length sep) (sc_buf s) @ concat cs))"
        by simp
      with un tokensOf_token [OF sep Some, of "concat cs"]
      show "scanAll (SplitAt sep) s = Some (tokensOf sep (sc_buf s @ concat cs))" by simp
    next
      assume a: "sc_err s \<noteq> None"
      with less.IH [OF sm, of cs]
      have "scanAll (SplitAt sep) ?s' = Some (tokensOf sep (drop (i + length sep) (sc_buf s)))"
        by simp
      with un tokensOf_token [OF sep Some, of "[]"]
      show "scanAll (SplitAt sep) s = Some (tokensOf sep (sc_buf s))" by simp
    qed
  next
    case None
    show ?thesis
    proof (intro conjI impI)
      assume a: "sc_err s \<noteq> None"
      show "scanAll (SplitAt sep) s = Some (tokensOf sep (sc_buf s))"
      proof (cases "sc_buf s = []")
        case True
        with None a have "Scan (SplitAt sep) s = (False, s\<lparr>sc_buf := [], sc_token := None\<rparr>)"
          by (simp add: Scan_SplitAt [OF sep])
        with True show ?thesis by (subst scanAll_unfold) (simp add: tokensOf_Nil)
      next
        case False
        let ?s' = "s\<lparr>sc_buf := [], sc_token := Some (sc_buf s)\<rparr>"
        from None a False have sc: "Scan (SplitAt sep) s = (True, ?s')"
          by (simp add: Scan_SplitAt [OF sep])
        from Scan_remaining [OF sep sc] have sm: "remaining ?s' < remaining s" .
        from less.IH [OF sm, of cs] a
        have "scanAll (SplitAt sep) ?s' = Some []" by (simp add: tokensOf_Nil)
        with sc False None show ?thesis
          by (subst scanAll_unfold) (simp add: Bytes_def tokensOf_last [OF sep])
      qed
    next
      assume a: "sc_err s = None" "sc_r s = chunked cs" "calm 0 cs"
      let ?s1 = "if sc_buf s = [] then s else s\<lparr>sc_buf := sc_buf s, sc_token := None\<rparr>"
      from None a have sc: "Scan (SplitAt sep) s = Scan (SplitAt sep) (fill ?s1)"
        by (subst Scan_SplitAt [OF sep]) simp
      have s1: "sc_r ?s1 = chunked cs" "sc_err ?s1 = None" "sc_buf ?s1 = sc_buf s"
        "remaining ?s1 = remaining s"
        using a by (simp_all add: remaining_def)
      from fill_remaining [OF s1(2)] s1(4) have sm: "remaining (fill ?s1) < remaining s" by simp
      have un: "scanAll (SplitAt sep) s = scanAll (SplitAt sep) (fill ?s1)"
        by (rule scanAll_cong [OF sc])
      from fill_calm [OF s1(1) a(3) s1(2)] obtain p rest where
        f: "sc_buf (fill ?s1) = sc_buf s @ p" "concat cs = p @ concat rest"
           "(sc_err (fill ?s1) = None \<and> sc_r (fill ?s1) = chunked rest \<and> calm 0 rest)
               \<or> (sc_err (fill ?s1) = Some EOF \<and> p = [] \<and> rest = [])"
        unfolding s1(3) by blast
      from f(3) have "scanAll (SplitAt sep) (fill ?s1) = Some (tokensOf sep (sc_buf s @ concat cs))"
      proof
        assume "sc_err (fill ?s1) = None \<and> sc_r (fill ?s1) = chunked rest \<and> calm 0 rest"
        with less.IH [OF sm, of rest] f(1,2) show ?thesis by simp
      next
        assume e: "sc_err (fill ?s1) = Some EOF \<and> p = [] \<and> rest = []"
        with f(2) have "concat cs = []" by simp
        then have c: "sc_buf s @ concat cs = sc_buf s" by (simp only: append_Nil2)
        from less.IH [OF sm, of rest] f(1) e
        have "scanAll (SplitAt sep) (fill ?s1) = Some (tokensOf sep (sc_buf s))" by simp
        then show ?thesis unfolding c .
      qed
      with un show "scanAll (SplitAt sep) s = Some (tokensOf sep (sc_buf s @ concat cs))" by simp
    qed
  qed
qed

section \<open>Properties of the matcher\<close>

subsection \<open>What a match looks like\<close>

text \<open>
  \<open>fits\<close> says which texts an item can match, \<open>cut\<close> cuts a text into pieces of
  given lengths.  The search is sound (the pieces it reports fit the items) and complete
  (it finds a match whenever the text can be cut to fit).
\<close>

fun fits :: "item \<Rightarrow> string \<Rightarrow> bool" where
  "fits (One c) seg = (length seg = 1 \<and> list_all (accepts c) seg)"
| "fits (PlusGreedy c) seg = (seg \<noteq> [] \<and> list_all (accepts c) seg)"
| "fits (PlusLazy c) seg = (seg \<noteq> [] \<and> list_all (accepts c) seg)"

fun cut :: "nat list \<Rightarrow> string \<Rightarrow> string list" where
  "cut [] s = []"
| "cut (n # ns) s = take n s # cut ns (drop n s)"

lemma backtrack_length: "backtrack re s = Some ns \<Longrightarrow> length ns = length re"
proof (induction re s arbitrary: ns rule: backtrack.induct)
  case (5 c re x xs)
  then show ?case
    by (cases "backtrack (PlusGreedy c # re) xs")
       (auto split: if_splits list.splits)
next
  case (7 c re x xs)
  then show ?case
    by (cases "backtrack re xs"; cases "backtrack (PlusLazy c # re) xs")
       (auto split: if_splits list.splits)
qed (auto split: if_splits)

lemma backtrack_sound:
  "backtrack re s = Some ns \<Longrightarrow> list_all2 fits re (cut ns s) \<and> sum_list ns \<le> length s"
proof (induction re s arbitrary: ns rule: backtrack.induct)
  case (1 s)
  then show ?case by simp
next
  case (2 c re)
  then show ?case by simp
next
  case (3 c re x xs)
  then show ?case by (auto split: if_splits)
next
  case (4 c re)
  then show ?case by simp
next
  case (5 c re x xs)
  from "5.prems" have a: "accepts c x" by (simp split: if_splits)
  show ?case
  proof (cases "backtrack (PlusGreedy c # re) xs")
    case None
    with "5.prems" a obtain ms where ms: "backtrack re xs = Some ms" "ns = 1 # ms" by auto
    with "5.IH"(2) [OF a] None a show ?thesis by simp
  next
    case (Some ks)
    with backtrack_length [OF Some] obtain k ms where ks: "ks = k # ms" by (cases ks) auto
    with "5.prems" a Some have ns: "ns = Suc k # ms" by simp
    from "5.IH"(1) [OF a Some] ks have "list_all2 fits (PlusGreedy c # re) (take k xs # cut ms (drop k xs))"
      and "k + sum_list ms \<le> length xs" by simp_all
    with ns a show ?thesis by simp
  qed
next
  case (6 c re)
  then show ?case by simp
next
  case (7 c re x xs)
  from "7.prems" have a: "accepts c x" by (simp split: if_splits)
  show ?case
  proof (cases "backtrack re xs")
    case (Some ms)
    with "7.prems" a have "ns = 1 # ms" by simp
    with "7.IH"(1) [OF a Some] a show ?thesis by simp
  next
    case None
    with "7.prems" a obtain ks where ks0: "backtrack (PlusLazy c # re) xs = Some ks"
      by (cases "backtrack (PlusLazy c # re) xs") auto
    with backtrack_length [OF ks0] obtain k ms where ks: "ks = k # ms" by (cases ks) auto
    with "7.prems" a None ks0 have ns: "ns = Suc k # ms" by simp
    from "7.IH"(2) [OF a None ks0] ks have "list_all2 fits (PlusLazy c # re) (take k xs # cut ms (drop k xs))"
      and "k + sum_list ms \<le> length xs" by simp_all
    with ns a show ?thesis by simp
  qed
qed

lemma backtrack_complete:
  "list_all2 fits re segs \<Longrightarrow> s = concat segs @ rest \<Longrightarrow> backtrack re s \<noteq> None"
proof (induction re s arbitrary: segs rule: backtrack.induct)
  case (1 s)
  then show ?case by simp
next
  case (2 c re)
  then show ?case by (auto simp: list_all2_Cons1)
next
  case (3 c re x xs)
  from "3.prems" obtain seg segs' where s: "segs = seg # segs'" "fits (One c) seg" "list_all2 fits re segs'"
    by (auto simp: list_all2_Cons1)
  then obtain y where y: "seg = [y]" "accepts c y" by (cases seg) auto
  with s "3.prems" have "x = y" "xs = concat segs' @ rest" by auto
  with "3.IH" [OF _ s(3)] y show ?case by auto
next
  case (4 c re)
  then show ?case by (auto simp: list_all2_Cons1)
next
  case (5 c re x xs)
  from "5.prems" obtain seg segs' where s: "segs = seg # segs'" "fits (PlusGreedy c) seg" "list_all2 fits re segs'"
    by (auto simp: list_all2_Cons1)
  then obtain y seg' where y: "seg = y # seg'" "accepts c y" "list_all (accepts c) seg'" by (cases seg) auto
  with s "5.prems" have x: "x = y" "xs = concat (seg' # segs') @ rest" by auto
  show ?case
  proof (cases "backtrack (PlusGreedy c # re) xs")
    case (Some ks)
    with backtrack_length [OF Some] obtain k ms where "ks = k # ms" by (cases ks) auto
    with Some x y show ?thesis by simp
  next
    case None
    have "seg' = []"
    proof (rule ccontr)
      assume "seg' \<noteq> []"
      with y s have "list_all2 fits (PlusGreedy c # re) (seg' # segs')" by simp
      with "5.IH"(1) [OF _ this x(2)] x y None show False by auto
    qed
    with x have "xs = concat segs' @ rest" by simp
    with "5.IH"(2) [OF _ None s(3)] x y have "backtrack re xs \<noteq> None" by auto
    with x y None show ?thesis by auto
  qed
next
  case (6 c re)
  then show ?case by (auto simp: list_all2_Cons1)
next
  case (7 c re x xs)
  from "7.prems" obtain seg segs' where s: "segs = seg # segs'" "fits (PlusLazy c) seg" "list_all2 fits re segs'"
    by (auto simp: list_all2_Cons1)
  then obtain y seg' where y: "seg = y # seg'" "accepts c y" "list_all (accepts c) seg'" by (cases seg) auto
  with s "7.prems" have x: "x = y" "xs = concat (seg' # segs') @ rest" by auto
  show ?case
  proof (cases "backtrack re xs")
    case (Some ms)
    with x y show ?thesis by simp
  next
    case None
    have "seg' \<noteq> []"
    proof
      assume "seg' = []"
      with x have "xs = concat segs' @ rest" by simp
      with "7.IH"(1) [OF _ s(3)] x y None show False by auto
    qed
    with y s have "list_all2 fits (PlusLazy c # re) (seg' # segs')" by simp
    with "7.IH"(2) [OF _ None this x(2)] x y obtain ks where ks: "backtrack (PlusLazy c # re) xs = Some ks" by auto
    with backtrack_length [OF ks] obtain k ms where "ks = k # ms" by (cases ks) auto
    with ks x y None show ?thesis by simp
  qed
qed

lemma search_sound:
  "search re s = Some m \<Longrightarrow> fst m \<le> length s \<and> backtrack re (drop (fst m) s) = Some (snd m)"
proof (induction s arbitrary: m)
  case Nil
  then show ?case by auto
next
  case (Cons x xs)
  show ?case
  proof (cases "backtrack re (x # xs)")
    case (Some ns)
    with Cons.prems show ?thesis by auto
  next
    case None
    with Cons.prems obtain m' where m': "search re xs = Some m'" "m = (Suc (fst m'), snd m')"
      by (auto split: prod.splits)
    with Cons.IH [OF m'(1)] show ?thesis by simp
  qed
qed

lemma search_complete:
  "backtrack re t \<noteq> None \<Longrightarrow> search re (pre @ t) \<noteq> None"
proof (induction pre)
  case Nil
  then show ?case by (cases t) auto
next
  case (Cons x pre)
  then show ?case by (cases "backtrack re (x # pre @ t)") auto
qed

lemma allMatches_unfold:
  "allMatches re s pos prev =
     (if pos > length s then []
      else (case search re (drop pos s) of
              None \<Rightarrow> []
            | Some m \<Rightarrow>
                if fst m + sum_list (snd m) = 0
                then (if Some (pos + fst m) = prev then [] else [(pos + fst m, snd m)])
                     @ allMatches re s (pos + 1) (Some (pos + fst m + sum_list (snd m)))
                else (pos + fst m, snd m)
                     # allMatches re s (pos + fst m + sum_list (snd m))
                         (Some (pos + fst m + sum_list (snd m)))))"
  by (rule allMatches.simps)

lemma allMatches_past_end: "pos > length s \<Longrightarrow> allMatches re s pos prev = []"
  by (subst allMatches.simps) simp

lemma allMatches_no_match:
  "search re (drop pos s) = None \<Longrightarrow> allMatches re s pos prev = []"
  by (subst allMatches.simps) simp

lemma allMatches_match:
  assumes "pos \<le> length s" "search re (drop pos s) = Some f" "0 < fst f + sum_list (snd f)"
  shows "allMatches re s pos prev =
          (pos + fst f, snd f)
            # allMatches re s (pos + fst f + sum_list (snd f)) (Some (pos + fst f + sum_list (snd f)))"
proof -
  from assms(3) have nz: "fst f + sum_list (snd f) \<noteq> 0" by linarith
  from assms(1) have le: "\<not> length s < pos" by linarith
  show ?thesis
    by (subst allMatches.simps) (simp only: nz le assms(2) option.case if_False)
qed

lemma allMatches_empty_match:
  assumes "pos \<le> length s" "search re (drop pos s) = Some f" "fst f + sum_list (snd f) = 0"
  shows "allMatches re s pos prev =
          (if Some (pos + fst f) = prev then [] else [(pos + fst f, snd f)])
            @ allMatches re s (pos + 1) (Some (pos + fst f + sum_list (snd f)))"
proof -
  from assms(1) have le: "\<not> length s < pos" by linarith
  show ?thesis
    by (subst allMatches.simps) (simp only: le assms(2,3) option.case if_True if_False refl simp_thms)
qed

lemma allMatches_sound:
  "m \<in> set (allMatches re s pos prev) \<Longrightarrow>
     pos \<le> fst m \<and> fst m \<le> length s \<and> backtrack re (drop (fst m) s) = Some (snd m)"
proof (induction re s pos prev rule: allMatches.induct)
  case (1 re s pos prev)
  show ?case
  proof (cases "pos > length s")
    case True
    with "1.prems" show ?thesis by (simp add: allMatches_past_end)
  next
    case False
    then have le: "pos \<le> length s" by simp
    show ?thesis
    proof (cases "search re (drop pos s)")
      case None
      with "1.prems" show ?thesis by (simp add: allMatches_no_match)
    next
      case (Some f)
      from search_sound [OF Some] False
      have here: "pos + fst f \<le> length s" "backtrack re (drop (pos + fst f) s) = Some (snd f)"
        by (auto simp: add.commute)
      show ?thesis
      proof (cases "fst f + sum_list (snd f) = 0")
        case True
        with "1.prems" allMatches_empty_match [OF le Some True, of prev]
        consider "m = (pos + fst f, snd f)"
          | "m \<in> set (allMatches re s (pos + 1) (Some (pos + fst f + sum_list (snd f))))"
          by (auto split: if_splits)
        then show ?thesis
        proof cases
          case 1
          with here show ?thesis by simp
        next
          case 2
          with "1.IH"(1) [OF False Some True] show ?thesis by simp
        qed
      next
        case nz: False
        then have "0 < fst f + sum_list (snd f)" by linarith
        with "1.prems" allMatches_match [OF le Some this, of prev]
        consider "m = (pos + fst f, snd f)"
          | "m \<in> set (allMatches re s (pos + fst f + sum_list (snd f)) (Some (pos + fst f + sum_list (snd f))))"
          by auto
        then show ?thesis
        proof cases
          case 1
          with here show ?thesis by simp
        next
          case 2
          with "1.IH"(2) [OF False Some nz] show ?thesis by simp
        qed
      qed
    qed
  qed
qed

text \<open>Matches never overlap and come in the order of their starts.\<close>

definition before :: "nat \<times> nat list \<Rightarrow> nat \<times> nat list \<Rightarrow> bool" where
  "before m m' = (fst m + sum_list (snd m) \<le> fst m')"

lemma allMatches_sorted:
  "(\<forall>t ns. backtrack re t = Some ns \<longrightarrow> 0 < sum_list ns) \<Longrightarrow>
   sorted_wrt before (allMatches re s pos prev)"
proof (induction re s pos prev rule: allMatches.induct)
  case (1 re s pos prev)
  show ?case
  proof (cases "pos > length s")
    case True
    then show ?thesis by (simp add: allMatches_past_end)
  next
    case False
    then have le: "pos \<le> length s" by simp
    show ?thesis
    proof (cases "search re (drop pos s)")
      case None
      then show ?thesis by (simp add: allMatches_no_match)
    next
      case (Some f)
      from search_sound [OF Some] have "backtrack re (drop (fst f) (drop pos s)) = Some (snd f)" by simp
      with "1.prems" have "0 < sum_list (snd f)" by blast
      then have pos: "0 < fst f + sum_list (snd f)" and nz: "fst f + sum_list (snd f) \<noteq> 0"
        by linarith+
      let ?e = "pos + fst f + sum_list (snd f)"
      have tail: "sorted_wrt before (allMatches re s ?e (Some ?e))"
        using "1.IH"(2) [OF False Some nz "1.prems"] .
      have "\<forall>m'\<in>set (allMatches re s ?e (Some ?e)). before (pos + fst f, snd f) m'"
        using allMatches_sound [of _ re s ?e "Some ?e"] by (auto simp: before_def)
      with tail show ?thesis
        by (simp add: allMatches_match [OF le Some pos])
    qed
  qed
qed

lemma allMatches_found:
  assumes "\<forall>t ns. backtrack re t = Some ns \<longrightarrow> 0 < sum_list ns"
    and "pos \<le> length s" and "search re (drop pos s) \<noteq> None"
  shows "allMatches re s pos prev \<noteq> []"
proof -
  from assms(3) obtain f where Some: "search re (drop pos s) = Some f" by auto
  from search_sound [OF Some] have "backtrack re (drop (fst f) (drop pos s)) = Some (snd f)" by simp
  with assms(1) have "0 < sum_list (snd f)" by blast
  then have "0 < fst f + sum_list (snd f)" by linarith
  from allMatches_match [OF assms(2) Some this] show ?thesis by simp
qed

subsection \<open>The fences of a text\<close>

text \<open>
  The matches of \<^verbatim>\<open>CodeBlockRegExp\<close> in a text, each with its start and the lengths
  of its seven items, and the block \<open>ParseCodeBlock\<close> makes of a match.
\<close>

definition fences :: "string \<Rightarrow> (nat \<times> nat list) list" where
  "fences t = allMatches CodeBlockRegExp t 0 None"

definition blockOf :: "string \<Rightarrow> nat \<times> nat list \<Rightarrow> CodeBlock" where
  "blockOf t m = \<lparr>Type = segment t (fst m) (snd m) 2, Code = segment t (fst m) (snd m) 3\<rparr>"

lemma ParseCodeBlock_loop_map:
  "ParseCodeBlock_loop (map (\<lambda>m. w m # [g1 m, g2 m]) ms) acc
     = acc @ map (\<lambda>m. \<lparr>Type = g1 m, Code = g2 m\<rparr>) ms"
  by (induction ms arbitrary: acc) simp_all

lemma ParseCodeBlock_fences: "ParseCodeBlock t = map (blockOf t) (fences t)"
proof -
  have "FindAllStringSubmatch CodeBlockRegExp CodeBlockGroups t
        = map (\<lambda>m. take (sum_list (snd m)) (drop (fst m) t)
                    # [segment t (fst m) (snd m) 2, segment t (fst m) (snd m) 3]) (fences t)"
    by (simp add: FindAllStringSubmatch_def CodeBlockGroups_def fences_def case_prod_unfold)
  then show ?thesis
    unfolding ParseCodeBlock_def blockOf_def
    by (simp only: ParseCodeBlock_loop_map append_Nil)
qed

lemma cut_concat:
  "sum_list ns \<le> length u \<Longrightarrow> u = concat (cut ns u) @ drop (sum_list ns) u"
proof (induction ns arbitrary: u)
  case Nil
  then show ?case by simp
next
  case (Cons n ns)
  then have "drop n u = concat (cut ns (drop n u)) @ drop (sum_list ns) (drop n u)"
    by (intro Cons.IH) simp
  then have "take n u @ drop n u = take n u @ concat (cut ns (drop n u)) @ drop (sum_list ns) (drop n u)"
    by simp
  then show ?case by (simp add: add.commute)
qed

lemma all_ticks: "list_all (accepts (Lit tick)) seg \<Longrightarrow> seg = replicate (length seg) tick"
  by (induction seg) auto

lemma length7: "length ns = 7 \<Longrightarrow> \<exists>a b c d e f g. ns = [a, b, c, d, e, f, g]"
  by (auto simp: eval_nat_numeral length_Suc_conv)

lemma CodeBlockRegExp_shape:
  assumes "backtrack CodeBlockRegExp u = Some ns"
  shows "\<exists>j k tag code post.
           2 \<le> j \<and> 2 \<le> k \<and> tag \<noteq> [] \<and> list_all (\<lambda>c. \<not> isSpace c) tag \<and> code \<noteq> []
           \<and> u = replicate j tick @ tag @ code @ nl # replicate k tick @ post
           \<and> tag = segment u 0 ns 2 \<and> code = segment u 0 ns 3
           \<and> sum_list ns = j + length tag + length code + 1 + k
           \<and> j = ns ! 0 + ns ! 1 \<and> length tag = ns ! 2 \<and> length code = ns ! 3"
proof -
  from backtrack_length [OF assms] have "length ns = 7" by (simp add: CodeBlockRegExp_def)
  then obtain a b c d e f g where ns: "ns = [a, b, c, d, e, f, g]"
    using length7 by blast
  from backtrack_sound [OF assms]
  have fit: "list_all2 fits CodeBlockRegExp (cut ns u)" and le: "sum_list ns \<le> length u"
    by simp_all
  define s0 where "s0 = take a u"
  define s1 where "s1 = take b (drop a u)"
  define s2 where "s2 = take c (drop b (drop a u))"
  define s3 where "s3 = take d (drop c (drop b (drop a u)))"
  define s4 where "s4 = take e (drop d (drop c (drop b (drop a u))))"
  define s5 where "s5 = take f (drop e (drop d (drop c (drop b (drop a u)))))"
  define s6 where "s6 = take g (drop f (drop e (drop d (drop c (drop b (drop a u))))))"
  have cutu: "cut ns u = [s0, s1, s2, s3, s4, s5, s6]"
    by (simp add: ns s0_def s1_def s2_def s3_def s4_def s5_def s6_def)
  from le have lens: "length s0 = a" "length s1 = b" "length s2 = c" "length s3 = d"
      "length s4 = e" "length s5 = f" "length s6 = g"
    by (auto simp: ns s0_def s1_def s2_def s3_def s4_def s5_def s6_def)
  from fit have f0: "length s0 = 1" "list_all (accepts (Lit tick)) s0"
    and f1: "s1 \<noteq> []" "list_all (accepts (Lit tick)) s1"
    and f2: "s2 \<noteq> []" "list_all (accepts NonSpace) s2"
    and f3: "s3 \<noteq> []"
    and f4: "length s4 = 1" "list_all (accepts (Lit nl)) s4"
    and f5: "length s5 = 1" "list_all (accepts (Lit tick)) s5"
    and f6: "s6 \<noteq> []" "list_all (accepts (Lit tick)) s6"
    unfolding cutu CodeBlockRegExp_def by simp_all
  from f4 have s4: "s4 = [nl]" by (cases s4) auto
  have op: "s0 @ s1 = replicate (a + b) tick"
    using all_ticks [OF f0(2)] all_ticks [OF f1(2)] lens by (metis replicate_add)
  have cl: "s5 @ s6 = replicate (f + g) tick"
    using all_ticks [OF f5(2)] all_ticks [OF f6(2)] lens by (metis replicate_add)
  from cut_concat [OF le] have "u = s0 @ s1 @ s2 @ s3 @ s4 @ s5 @ s6 @ drop (sum_list ns) u"
    unfolding cutu by simp
  then have "u = (s0 @ s1) @ s2 @ s3 @ nl # (s5 @ s6) @ drop (sum_list ns) u"
    using s4 by simp
  then have u: "u = replicate (a + b) tick @ s2 @ s3 @ nl # replicate (f + g) tick @ drop (sum_list ns) u"
    unfolding op cl .
  have tag: "s2 = segment u 0 ns 2" and code: "s3 = segment u 0 ns 3"
    by (simp_all add: segment_def ns s2_def s3_def add.commute add.left_commute)
  have "2 \<le> a + b" "2 \<le> f + g" using f0 f1 f5 f6 lens by (cases s1; cases s6; simp)+
  moreover have "list_all (\<lambda>c. \<not> isSpace c) s2" using f2(2) by (simp add: list_all_iff)
  moreover have "sum_list ns = (a + b) + length s2 + length s3 + 1 + (f + g)"
    using lens f4 by (simp add: ns)
  moreover have "a + b = ns ! 0 + ns ! 1" "length s2 = ns ! 2" "length s3 = ns ! 3"
    using lens by (simp_all add: ns)
  ultimately show ?thesis using u f2(1) f3 tag code by blast
qed

lemma segment_drop: "segment (drop b t) 0 ns k = segment t b ns k"
  by (simp add: segment_def add.commute)

lemma fence_shape:
  assumes "m \<in> set (fences t)"
  shows "\<exists>j k post.
           2 \<le> j \<and> 2 \<le> k \<and> Type (blockOf t m) \<noteq> []
           \<and> list_all (\<lambda>c. \<not> isSpace c) (Type (blockOf t m)) \<and> Code (blockOf t m) \<noteq> []
           \<and> t = take (fst m) t @ replicate j tick @ Type (blockOf t m) @ Code (blockOf t m)
                    @ nl # replicate k tick @ post
           \<and> sum_list (snd m) = j + length (Type (blockOf t m)) + length (Code (blockOf t m)) + 1 + k"
proof -
  from assms allMatches_sound [of m CodeBlockRegExp t 0 None]
  have bt: "backtrack CodeBlockRegExp (drop (fst m) t) = Some (snd m)"
    by (simp add: fences_def)
  from CodeBlockRegExp_shape [OF bt] obtain j k tag code post where
    s: "2 \<le> j" "2 \<le> k" "tag \<noteq> []" "list_all (\<lambda>c. \<not> isSpace c) tag" "code \<noteq> []"
       "drop (fst m) t = replicate j tick @ tag @ code @ nl # replicate k tick @ post"
       "tag = segment (drop (fst m) t) 0 (snd m) 2" "code = segment (drop (fst m) t) 0 (snd m) 3"
       "sum_list (snd m) = j + length tag + length code + 1 + k"
    by blast
  from s(7,8) have tc: "tag = Type (blockOf t m)" "code = Code (blockOf t m)"
    by (simp_all add: blockOf_def segment_drop)
  have "t = take (fst m) t @ drop (fst m) t" by simp
  with s(6) have "t = take (fst m) t @ replicate j tick @ tag @ code @ nl # replicate k tick @ post"
    by simp
  with s(1-5,9) show ?thesis unfolding tc by blast
qed

lemma block_shape:
  assumes "b \<in> set (ParseCodeBlock t)"
  shows "\<exists>pre j k post.
           2 \<le> j \<and> 2 \<le> k \<and> Type b \<noteq> [] \<and> list_all (\<lambda>c. \<not> isSpace c) (Type b) \<and> Code b \<noteq> []
           \<and> t = pre @ replicate j tick @ Type b @ Code b @ nl # replicate k tick @ post"
proof -
  from assms obtain m where m: "m \<in> set (fences t)" "b = blockOf t m"
    by (auto simp: ParseCodeBlock_fences)
  from fence_shape [OF m(1)] show ?thesis unfolding m(2) by blast
qed

lemma CodeBlockRegExp_nonempty:
  "\<forall>t ns. backtrack CodeBlockRegExp t = Some ns \<longrightarrow> 0 < sum_list ns"
proof (intro allI impI)
  fix t ns assume "backtrack CodeBlockRegExp t = Some ns"
  from CodeBlockRegExp_shape [OF this] show "0 < sum_list ns" by auto
qed

lemma fence_found:
  assumes "2 \<le> j" "2 \<le> k" "tag \<noteq> []" "list_all (\<lambda>c. \<not> isSpace c) tag" "code \<noteq> []"
  shows "ParseCodeBlock (pre @ replicate j tick @ tag @ code @ nl # replicate k tick @ post) \<noteq> []"
proof -
  let ?u = "replicate j tick @ tag @ code @ nl # replicate k tick @ post"
  from assms(1) obtain j' where j: "j = Suc (Suc j')" by (cases j; cases "j - 1") auto
  from assms(2) obtain k' where k: "k = Suc (Suc k')" by (cases k; cases "k - 1") auto
  let ?segs = "[[tick], replicate (Suc j') tick, tag, code, [nl], [tick], replicate (Suc k') tick]"
  have "list_all2 fits CodeBlockRegExp ?segs"
    using assms(3-5) by (simp add: CodeBlockRegExp_def list_all_iff)
  moreover have "?u = concat ?segs @ post" by (simp add: j k)
  ultimately have "backtrack CodeBlockRegExp ?u \<noteq> None" by (rule backtrack_complete)
  then have "search CodeBlockRegExp (pre @ ?u) \<noteq> None" by (rule search_complete)
  then have "fences (pre @ ?u) \<noteq> []"
    unfolding fences_def by (intro allMatches_found CodeBlockRegExp_nonempty) simp_all
  then show ?thesis by (simp add: ParseCodeBlock_fences)
qed

subsection \<open>The lazy group stops at the first closing marker\<close>

lemma backtrack_tail:
  "backtrack (it # re) s = Some (n # ns) \<Longrightarrow> backtrack re (drop n s) = Some ns"
proof (induction s arbitrary: n)
  case Nil
  then show ?case by (cases it) auto
next
  case (Cons x xs)
  show ?case
  proof (cases it)
    case (One c)
    with Cons.prems show ?thesis by (auto split: if_splits)
  next
    case (PlusGreedy c)
    with Cons.prems have a: "accepts c x" by (simp split: if_splits)
    show ?thesis
    proof (cases "backtrack (PlusGreedy c # re) xs")
      case None
      with Cons.prems PlusGreedy a show ?thesis by auto
    next
      case (Some ks)
      with backtrack_length [OF Some] obtain k ms where ks: "ks = k # ms" by (cases ks) auto
      with Cons.prems PlusGreedy a Some have "n = Suc k" "ns = ms" by simp_all
      with Cons.IH [of k] Some ks PlusGreedy show ?thesis by simp
    qed
  next
    case (PlusLazy c)
    with Cons.prems have a: "accepts c x" by (simp split: if_splits)
    show ?thesis
    proof (cases "backtrack re xs")
      case (Some ms)
      with Cons.prems PlusLazy a show ?thesis by auto
    next
      case None
      with Cons.prems PlusLazy a obtain ks where ks0: "backtrack (PlusLazy c # re) xs = Some ks"
        by (cases "backtrack (PlusLazy c # re) xs") auto
      with backtrack_length [OF ks0] obtain k ms where ks: "ks = k # ms" by (cases ks) auto
      with Cons.prems PlusLazy a None ks0 have "n = Suc k" "ns = ms" by simp_all
      with Cons.IH [of k] ks0 ks PlusLazy show ?thesis by simp
    qed
  qed
qed

lemma lazy_minimal:
  "backtrack (PlusLazy c # re) s = Some (n # ns) \<Longrightarrow> 0 < i \<Longrightarrow> i < n
     \<Longrightarrow> backtrack re (drop i s) = None"
proof (induction s arbitrary: n i)
  case Nil
  then show ?case by simp
next
  case (Cons x xs)
  from Cons.prems have a: "accepts c x" by (simp split: if_splits)
  show ?case
  proof (cases "backtrack re xs")
    case (Some ms)
    with Cons.prems a show ?thesis by auto
  next
    case None
    with Cons.prems a obtain ks where ks0: "backtrack (PlusLazy c # re) xs = Some ks"
      by (cases "backtrack (PlusLazy c # re) xs") auto
    with backtrack_length [OF ks0] obtain k ms where ks: "ks = k # ms" by (cases ks) auto
    with Cons.prems a None ks0 have n: "n = Suc k" and ms: "ms = ns" by simp_all
    show ?thesis
    proof (cases "i = 1")
      case True
      with None show ?thesis by simp
    next
      case False
      with Cons.prems n have "0 < i - 1" "i - 1 < k" by simp_all
      from Cons.IH [OF ks0 [unfolded ks ms] this] Cons.prems(2) show ?thesis
        by (cases i) simp_all
    qed
  qed
qed

lemma closing_found:
  "prefix [nl, tick, tick] v \<Longrightarrow>
     backtrack [One (Lit nl), One (Lit tick), PlusGreedy (Lit tick)] v \<noteq> None"
proof -
  assume "prefix [nl, tick, tick] v"
  then obtain r where v: "v = concat [[nl], [tick], [tick]] @ r" by (auto simp: prefix_def)
  have "list_all2 fits [One (Lit nl), One (Lit tick), PlusGreedy (Lit tick)] [[nl], [tick], [tick]]"
    by simp
  from backtrack_complete [OF this v] show ?thesis .
qed

lemma CodeBlockRegExp_lazy:
  assumes "backtrack CodeBlockRegExp u = Some ns" "0 < i" "i < ns ! 3"
  shows "\<not> prefix [nl, tick, tick] (drop (ns ! 0 + ns ! 1 + ns ! 2 + i) u)"
proof -
  from backtrack_length [OF assms(1)] have "length ns = 7" by (simp add: CodeBlockRegExp_def)
  then obtain a b c d e f g where ns: "ns = [a, b, c, d, e, f, g]"
    using length7 by blast
  from assms(1)
  have "backtrack (One (Lit tick) # [PlusGreedy (Lit tick), PlusGreedy NonSpace, PlusLazy AnyChar,
          One (Lit nl), One (Lit tick), PlusGreedy (Lit tick)]) u = Some (a # [b, c, d, e, f, g])"
    by (simp add: ns CodeBlockRegExp_def)
  from backtrack_tail [OF this]
  have "backtrack (PlusGreedy (Lit tick) # [PlusGreedy NonSpace, PlusLazy AnyChar,
          One (Lit nl), One (Lit tick), PlusGreedy (Lit tick)]) (drop a u) = Some (b # [c, d, e, f, g])" .
  from backtrack_tail [OF this]
  have "backtrack (PlusGreedy NonSpace # [PlusLazy AnyChar,
          One (Lit nl), One (Lit tick), PlusGreedy (Lit tick)]) (drop b (drop a u)) = Some (c # [d, e, f, g])" .
  from backtrack_tail [OF this]
  have "backtrack (PlusLazy AnyChar # [One (Lit nl), One (Lit tick), PlusGreedy (Lit tick)])
               (drop c (drop b (drop a u))) = Some (d # [e, f, g])" .
  then have "backtrack (PlusLazy AnyChar # [One (Lit nl), One (Lit tick), PlusGreedy (Lit tick)])
               (drop (a + b + c) u) = Some (d # [e, f, g])"
    by (simp add: add.commute add.left_commute)
  from lazy_minimal [OF this assms(2)] assms(3)
  have "backtrack [One (Lit nl), One (Lit tick), PlusGreedy (Lit tick)] (drop i (drop (a + b + c) u)) = None"
    by (simp add: ns)
  with closing_found have "\<not> prefix [nl, tick, tick] (drop i (drop (a + b + c) u))" by blast
  then show ?thesis by (simp add: ns add.commute add.left_commute)
qed


lemma block_lazy:
  assumes "b \<in> set (ParseCodeBlock t)" "0 < i" "i < length (Code b)"
  shows "\<not> prefix [nl, tick, tick] (drop i (Code b @ [nl, tick, tick]))"
proof -
  from assms(1) obtain m where m: "m \<in> set (fences t)" "b = blockOf t m"
    by (auto simp: ParseCodeBlock_fences)
  from m(1) allMatches_sound [of m CodeBlockRegExp t 0 None]
  have bt: "backtrack CodeBlockRegExp (drop (fst m) t) = Some (snd m)"
    by (simp add: fences_def)
  from CodeBlockRegExp_shape [OF bt] obtain j k tag code post where
    s: "2 \<le> k"
       "drop (fst m) t = replicate j tick @ tag @ code @ nl # replicate k tick @ post"
       "code = segment (drop (fst m) t) 0 (snd m) 3"
       "j = snd m ! 0 + snd m ! 1" "length tag = snd m ! 2" "length code = snd m ! 3"
    by blast
  from s(3) have code: "code = Code b" by (simp add: m(2) blockOf_def segment_drop)
  from s(1) obtain k' where k: "k = Suc (Suc k')" by (cases k; cases "k - 1") auto
  from assms(3) code s(6) have "i < snd m ! 3" by simp
  from CodeBlockRegExp_lazy [OF bt assms(2) this]
  have "\<not> prefix [nl, tick, tick] (drop (j + length tag + i) (drop (fst m) t))"
    by (simp add: s(4,5))
  also have "drop (j + length tag + i) (drop (fst m) t) = drop i (code @ nl # replicate k tick @ post)"
    by (subst s(2)) (simp add: add.commute add.left_commute)
  also have "\<dots> = drop i (code @ [nl, tick, tick]) @ replicate k' tick @ post"
    using assms(3) code by (simp add: k)
  finally have "\<not> prefix [nl, tick, tick] (drop i (code @ [nl, tick, tick]) @ replicate k' tick @ post)" .
  then have "\<not> prefix [nl, tick, tick] (drop i (code @ [nl, tick, tick]))"
    using prefix_prefix by blast
  then show ?thesis unfolding code .
qed

text \<open>The two cases of \<open>analyse\<close>, and the order of the fences of a text.\<close>

lemma analyse_cases:
  "analyse text' fragment =
     (if ParseCodeBlock (text' @ fragment) = [] then (text' @ fragment, [])
      else ([], ParseCodeBlock (text' @ fragment)))"
  by (simp add: analyse_def Let_def)

lemma fences_sorted: "sorted_wrt before (fences t)"
  unfolding fences_def by (rule allMatches_sorted [OF CodeBlockRegExp_nonempty])

section \<open>Query on a stream without read error\<close>

text \<open>
  A scanner on a stream without read error: either nothing has failed yet and the stream
  still holds the chunks \<open>cs\<close>, or the end of the stream has been seen.
\<close>

definition clean :: "Scanner \<Rightarrow> byte list list \<Rightarrow> bool" where
  "clean s cs = ((sc_err s = None \<and> sc_r s = chunked cs \<and> calm 0 cs)
                 \<or> (sc_err s = Some EOF \<and> cs = []))"

lemma Scan_clean:
  assumes sep: "sep \<noteq> []"
  shows "clean s cs \<Longrightarrow>
     \<exists>s' cs'. Scan (SplitAt sep) s = (tokensOf sep (sc_buf s @ concat cs) \<noteq> [], s')
        \<and> clean s' cs' \<and> Err s' = None
        \<and> (tokensOf sep (sc_buf s @ concat cs) \<noteq> [] \<longrightarrow>
             tokensOf sep (sc_buf s @ concat cs) = Bytes s' # tokensOf sep (sc_buf s' @ concat cs'))"
proof (induction s arbitrary: cs rule: measure_induct_rule [of remaining])
  case (less s)
  show ?case
  proof (cases "Index (sc_buf s) sep")
    case (Some i)
    let ?s' = "s\<lparr>sc_buf := drop (i + length sep) (sc_buf s), sc_token := Some (take i (sc_buf s))\<rparr>"
    from Some have sc: "Scan (SplitAt sep) s = (True, ?s')"
      by (simp add: Scan_SplitAt [OF sep])
    from less.prems have cl: "clean ?s' cs" "Err ?s' = None" by (auto simp: clean_def Err_def)
    from tokensOf_token [OF sep Some, of "concat cs"]
    have "tokensOf sep (sc_buf s @ concat cs) = Bytes ?s' # tokensOf sep (sc_buf ?s' @ concat cs)"
      by (simp add: Bytes_def)
    with sc cl show ?thesis by (intro exI [of _ ?s'] exI [of _ cs]) simp
  next
    case None
    show ?thesis
    proof (cases "sc_err s = None")
      case False
      with less.prems have e: "sc_err s = Some EOF" "cs = []" by (auto simp: clean_def)
      show ?thesis
      proof (cases "sc_buf s = []")
        case True
        with None e have "Scan (SplitAt sep) s = (False, s\<lparr>sc_buf := [], sc_token := None\<rparr>)"
          by (simp add: Scan_SplitAt [OF sep])
        with True e show ?thesis
          by (intro exI [of _ "s\<lparr>sc_buf := [], sc_token := None\<rparr>"] exI [of _ "[]"])
             (simp add: tokensOf_Nil clean_def Err_def)
      next
        case ne: False
        let ?s' = "s\<lparr>sc_buf := [], sc_token := Some (sc_buf s)\<rparr>"
        from None e ne have "Scan (SplitAt sep) s = (True, ?s')"
          by (simp add: Scan_SplitAt [OF sep])
        with ne e None show ?thesis
          by (intro exI [of _ ?s'] exI [of _ "[]"])
             (simp add: tokensOf_Nil tokensOf_last [OF sep] clean_def Err_def Bytes_def)
      qed
    next
      case True
      with less.prems have a: "sc_err s = None" "sc_r s = chunked cs" "calm 0 cs"
        by (auto simp: clean_def)
      let ?s1 = "if sc_buf s = [] then s else s\<lparr>sc_buf := sc_buf s, sc_token := None\<rparr>"
      from None a have sc: "Scan (SplitAt sep) s = Scan (SplitAt sep) (fill ?s1)"
        by (subst Scan_SplitAt [OF sep]) simp
      have s1: "sc_r ?s1 = chunked cs" "sc_err ?s1 = None" "sc_buf ?s1 = sc_buf s"
        "remaining ?s1 = remaining s"
        using a by (simp_all add: remaining_def)
      from fill_remaining [OF s1(2)] s1(4) have sm: "remaining (fill ?s1) < remaining s" by simp
      from fill_calm [OF s1(1) a(3) s1(2)] obtain p rest where
        f: "sc_buf (fill ?s1) = sc_buf s @ p" "concat cs = p @ concat rest"
           "(sc_err (fill ?s1) = None \<and> sc_r (fill ?s1) = chunked rest \<and> calm 0 rest)
               \<or> (sc_err (fill ?s1) = Some EOF \<and> p = [] \<and> rest = [])"
        unfolding s1(3) by blast
      from f(3) have cl: "clean (fill ?s1) rest" by (auto simp: clean_def)
      from f(1,2) have d: "sc_buf (fill ?s1) @ concat rest = sc_buf s @ concat cs" by simp
      from less.IH [OF sm cl] show ?thesis unfolding d sc .
    qed
  qed
qed


text \<open>
  The loop of \<open>Query\<close> on a list of tokens in place of a scanner: what the loop does on
  a stream that ends without a read error (lemma \<open>Query_loop_tokens\<close>).
\<close>

fun onTokens ::
  "Parser \<Rightarrow> 'h Request \<Rightarrow> bool \<Rightarrow> byte list list \<Rightarrow> Response \<Rightarrow> string \<Rightarrow> goerror option \<Rightarrow> 'h
     \<Rightarrow> action list \<Rightarrow> outcome \<times> 'h \<times> action list" where
  "onTokens parse request shouldAnalyse [] res text' err h acts = (Return err, h, acts)"
| "onTokens parse request shouldAnalyse (tok # toks) res text' err h acts =
     (case Unmarshal parse tok res of
        (Some e, res1) \<Rightarrow>
          (Return (Some (Errorf ''failed to unmarshal ollama response'' e)), h, acts @ [Scanned tok])
      | (None, res1) \<Rightarrow>
          (case dispatch request shouldAnalyse res1 text' h (acts @ [Scanned tok]) of
             (Some out, text1, h1, acts1) \<Rightarrow> (out, h1, acts1)
           | (None, text1, h1, acts1) \<Rightarrow>
               onTokens parse request shouldAnalyse toks res1 text1 None h1 acts1))"

lemma Query_loop_tokens:
  "clean s cs \<Longrightarrow> toks = tokensOf [nl] (sc_buf s @ concat cs) \<Longrightarrow>
   Query_loop parse request shouldAnalyse s res text' err h acts
     = onTokens parse request shouldAnalyse toks res text' err h acts"
proof (induction toks arbitrary: s cs res text' err h acts)
  case Nil
  from Scan_clean [OF _ Nil.prems(1), of "[nl]"] Nil.prems(2) [symmetric]
  obtain s' where "Scan (SplitAt [nl]) s = (False, s')" by auto
  then show ?case by (subst Query_loop.simps) simp
next
  case (Cons tok toks)
  from Scan_clean [OF _ Cons.prems(1), of "[nl]"] Cons.prems(2) [symmetric]
  obtain s' cs' where
    sc: "Scan (SplitAt [nl]) s = (True, s')" "clean s' cs'" "Err s' = None"
        "tok = Bytes s'" "toks = tokensOf [nl] (sc_buf s' @ concat cs')"
    by auto
  note IH = Cons.IH [OF sc(2) sc(5)]
  show ?case
    by (subst Query_loop.simps)
       (simp add: sc(1,3) sc(4) [symmetric] IH split: prod.splits option.splits)
qed

lemma Query_tokens:
  "calm 0 chunks \<Longrightarrow>
   Query parse request (chunked chunks) h
     = onTokens parse request (case OnCodeBlock request of None \<Rightarrow> False | Some g \<Rightarrow> True)
         (tokensOf [nl] (concat chunks)) emptyResponse [] None h []"
  unfolding Query_def Let_def
  by (rule Query_loop_tokens [of _ chunks])
     (simp_all add: clean_def NewSplitScanner_def NewScanner_def)


text \<open>The fragment an event carries: the value of the member \<^verbatim>\<open>response\<close> of its line.\<close>

definition fragmentOf :: "Parser \<Rightarrow> byte list \<Rightarrow> string" where
  "fragmentOf parse tok =
     (case parse tok of
        Inl e \<Rightarrow> []
      | Inr m \<Rightarrow> (case m_response m of Val f \<Rightarrow> f | _ \<Rightarrow> []))"

lemma dispatch_quiet:
  assumes json: "\<forall>f r h. OnJson request = Some f \<longrightarrow> fst (f r h) = None"
    and block: "OnCodeBlock request = Some g" "\<forall>bs h. fst (g bs h) = None"
    and frag: "Response res = Some fragment"
  shows "\<exists>h1 acts1.
           dispatch request True res text' h acts = (None, fst (analyse text' fragment), h1, acts1)
           \<and> (\<forall>bs e. BlockCall bs e \<in> set acts1 \<longrightarrow>
                 BlockCall bs e \<in> set acts
                 \<or> (e = None \<and> bs \<noteq> [] \<and> bs = ParseCodeBlock (text' @ fragment)))"
proof -
  obtain e0 h0 acts0 where n: "notify request res h acts = (e0, h0, acts0)"
    by (cases "notify request res h acts") auto
  have e0: "e0 = None" and a0: "\<forall>bs e. BlockCall bs e \<in> set acts0 \<longrightarrow> BlockCall bs e \<in> set acts"
    using n json
    by (auto simp: notify_def split: option.splits prod.splits) (metis fst_conv)+
  show ?thesis
  proof (cases "ParseCodeBlock (text' @ fragment) = []")
    case True
    with n e0 a0 frag show ?thesis
      by (simp add: dispatch_def deliver_def analyse_cases)
  next
    case False
    obtain e1 h1 where g: "g (ParseCodeBlock (text' @ fragment)) h0 = (e1, h1)"
      by (cases "g (ParseCodeBlock (text' @ fragment)) h0") auto
    with block(2) have "e1 = None" by (metis fst_conv)
    with n e0 a0 frag False g block(1) show ?thesis
      by (auto simp: dispatch_def deliver_def analyse_cases)
  qed
qed

lemma onTokens_quiet:
  assumes json: "\<forall>f r h. OnJson request = Some f \<longrightarrow> fst (f r h) = None"
    and block: "OnCodeBlock request = Some g" "\<forall>bs h. fst (g bs h) = None"
  shows "\<forall>tok\<in>set toks. \<exists>m f. parse tok = Inr m \<and> m_response m = Val f \<Longrightarrow>
     fst (onTokens parse request True toks res text' None h acts) = Return None
     \<and> (\<forall>bs e. BlockCall bs e \<in> set (snd (snd (onTokens parse request True toks res text' None h acts)))
           \<longrightarrow> BlockCall bs e \<in> set acts
               \<or> (e = None \<and> bs \<noteq> []
                   \<and> ((\<exists>k\<le>length toks. bs = ParseCodeBlock (text' @ concat (map (fragmentOf parse) (take k toks))))
                       \<or> (\<exists>j k. bs = ParseCodeBlock (concat (map (fragmentOf parse) (take k (drop j toks))))))))"
proof (induction toks arbitrary: res text' h acts)
  case Nil
  then show ?case by simp
next
  case (Cons tok toks)
  from Cons.prems obtain m f where p: "parse tok = Inr m" "m_response m = Val f" by auto
  then have fr: "fragmentOf parse tok = f" by (simp add: fragmentOf_def)
  obtain res1 where u: "Unmarshal parse tok res = (None, res1)" "Response res1 = Some f"
    using p by (simp add: Unmarshal_def)
  from dispatch_quiet [OF json block u(2), of text' h "acts @ [Scanned tok]"]
  obtain h1 acts1 where
    d: "dispatch request True res1 text' h (acts @ [Scanned tok]) = (None, fst (analyse text' f), h1, acts1)"
       "\<forall>bs e. BlockCall bs e \<in> set acts1 \<longrightarrow>
                 BlockCall bs e \<in> set (acts @ [Scanned tok])
                 \<or> (e = None \<and> bs \<noteq> [] \<and> bs = ParseCodeBlock (text' @ f))"
    by blast
  let ?t1 = "fst (analyse text' f)"
  have step: "onTokens parse request True (tok # toks) res text' None h acts
                = onTokens parse request True toks res1 ?t1 None h1 acts1"
    by (simp add: u(1) d(1))
  from Cons.prems have rest: "\<forall>tok\<in>set toks. \<exists>m f. parse tok = Inr m \<and> m_response m = Val f"
    by simp
  note IH = Cons.IH [OF rest, of res1 ?t1 h1 acts1]
  have t1: "?t1 = [] \<or> ?t1 = text' @ f" by (simp add: analyse_cases)
  have d2: "BlockCall bs e \<in> set acts \<or> (e = None \<and> bs \<noteq> [] \<and> bs = ParseCodeBlock (text' @ f))"
    if "BlockCall bs e \<in> set acts1" for bs e
    using d(2) that by auto
  show ?case
  proof (intro conjI allI impI)
    from IH show "fst (onTokens parse request True (tok # toks) res text' None h acts) = Return None"
      unfolding step by blast
  next
    fix bs e
    assume "BlockCall bs e \<in> set (snd (snd (onTokens parse request True (tok # toks) res text' None h acts)))"
    with IH have
      "BlockCall bs e \<in> set acts1
       \<or> (e = None \<and> bs \<noteq> []
           \<and> ((\<exists>k\<le>length toks. bs = ParseCodeBlock (?t1 @ concat (map (fragmentOf parse) (take k toks))))
               \<or> (\<exists>j k. bs = ParseCodeBlock (concat (map (fragmentOf parse) (take k (drop j toks)))))))"
      unfolding step by blast
    then consider
        (old) "BlockCall bs e \<in> set acts"
      | (now) "e = None" "bs \<noteq> []" "bs = ParseCodeBlock (text' @ f)"
      | (later0) k where "e = None" "bs \<noteq> []" "k \<le> length toks"
            "bs = ParseCodeBlock (?t1 @ concat (map (fragmentOf parse) (take k toks)))"
      | (laterj) j k where "e = None" "bs \<noteq> []"
            "bs = ParseCodeBlock (concat (map (fragmentOf parse) (take k (drop j toks))))"
    proof (elim disjE conjE exE, goal_cases)
      case 1
      from d2 [OF 1(5)] 1(1,2) show ?case by blast
    next
      case 2
      then show ?case by blast
    next
      case 3
      then show ?case by blast
    qed
    then show "BlockCall bs e \<in> set acts
               \<or> (e = None \<and> bs \<noteq> []
                   \<and> ((\<exists>k\<le>length (tok # toks).
                          bs = ParseCodeBlock (text' @ concat (map (fragmentOf parse) (take k (tok # toks)))))
                       \<or> (\<exists>j k. bs = ParseCodeBlock
                                    (concat (map (fragmentOf parse) (take k (drop j (tok # toks))))))))"
    proof cases
      case old
      then show ?thesis by blast
    next
      case now
      then have "bs = ParseCodeBlock (text' @ concat (map (fragmentOf parse) (take 1 (tok # toks))))"
        by (simp add: fr)
      with now(1,2) show ?thesis by (intro disjI2 conjI disjI1 exI [of _ 1]) simp_all
    next
      case later0
      from t1 show ?thesis
      proof
        assume "?t1 = []"
        with later0(4) have "bs = ParseCodeBlock (concat (map (fragmentOf parse) (take k (drop 1 (tok # toks)))))"
          by simp
        with later0(1,2) show ?thesis by blast
      next
        assume "?t1 = text' @ f"
        with later0(4)
        have "bs = ParseCodeBlock (text' @ concat (map (fragmentOf parse) (take (Suc k) (tok # toks))))"
          by (simp add: fr)
        with later0(1,2,3) show ?thesis by (intro disjI2 conjI disjI1 exI [of _ "Suc k"]) simp_all
      qed
    next
      case laterj
      then have "bs = ParseCodeBlock (concat (map (fragmentOf parse) (take k (drop (Suc j) (tok # toks)))))"
        by simp
      with laterj(1,2) show ?thesis by blast
    qed
  qed
qed


lemma onTokens_open:
  assumes json: "\<forall>f r h. OnJson request = Some f \<longrightarrow> fst (f r h) = None"
    and block: "OnCodeBlock request = Some g" "\<forall>bs h. fst (g bs h) = None"
  shows "\<forall>tok\<in>set toks. \<exists>m f. parse tok = Inr m \<and> m_response m = Val f \<Longrightarrow>
     \<forall>k\<le>length toks. ParseCodeBlock (text' @ concat (map (fragmentOf parse) (take k toks))) = [] \<Longrightarrow>
     BlockCall bs e \<in> set (snd (snd (onTokens parse request True toks res text' None h acts))) \<Longrightarrow>
     BlockCall bs e \<in> set acts"
proof (induction toks arbitrary: res text' h acts)
  case Nil
  then show ?case by simp
next
  case (Cons tok toks)
  from Cons.prems(1) obtain m f where p: "parse tok = Inr m" "m_response m = Val f" by auto
  then have fr: "fragmentOf parse tok = f" by (simp add: fragmentOf_def)
  obtain res1 where u: "Unmarshal parse tok res = (None, res1)" "Response res1 = Some f"
    using p by (simp add: Unmarshal_def)
  from Cons.prems(2) [rule_format, of 1] have none: "ParseCodeBlock (text' @ f) = []"
    by (simp add: fr)
  then have t1: "fst (analyse text' f) = text' @ f" by (simp add: analyse_cases)
  from dispatch_quiet [OF json block u(2), of text' h "acts @ [Scanned tok]"] none
  obtain h1 acts1 where
    d: "dispatch request True res1 text' h (acts @ [Scanned tok]) = (None, text' @ f, h1, acts1)"
       "\<forall>bs e. BlockCall bs e \<in> set acts1 \<longrightarrow> BlockCall bs e \<in> set acts"
    unfolding t1 by auto
  have step: "onTokens parse request True (tok # toks) res text' None h acts
                = onTokens parse request True toks res1 (text' @ f) None h1 acts1"
    by (simp add: u(1) d(1))
  from Cons.prems(1) have rest: "\<forall>tok\<in>set toks. \<exists>m f. parse tok = Inr m \<and> m_response m = Val f"
    by simp
  have opn: "\<forall>k\<le>length toks.
               ParseCodeBlock ((text' @ f) @ concat (map (fragmentOf parse) (take k toks))) = []"
  proof (intro allI impI)
    fix k assume "k \<le> length toks"
    with Cons.prems(2) [rule_format, of "Suc k"]
    show "ParseCodeBlock ((text' @ f) @ concat (map (fragmentOf parse) (take k toks))) = []"
      by (simp add: fr)
  qed
  from Cons.IH [OF rest opn, of res1 h1 acts1] Cons.prems(3) d(2) show ?case
    unfolding step by blast
qed

section \<open>The actions of Query and its result\<close>

text \<open>
  What a handler call in the list of actions makes \<open>Query\<close> return: nothing when the
  handler succeeded, its error wrapped by \<^verbatim>\<open>fmt.Errorf\<close> when it failed.
\<close>

fun failure :: "action \<Rightarrow> outcome option" where
  "failure (Scanned tok) = None"
| "failure (JsonCall res e) =
     map_option (\<lambda>x. Return (Some (Errorf ''failed to process ollama response'' x))) e"
| "failure (BlockCall blocks e) =
     map_option (\<lambda>x. Return (Some (Errorf ''failed to process ollama response code block'' x))) e"

text \<open>\<open>lastFails acts out\<close>: no call but the last one failed, and if the last one failed
  then \<open>out\<close> is its wrapped error.\<close>

fun lastFails :: "action list \<Rightarrow> outcome \<Rightarrow> bool" where
  "lastFails [] out = True"
| "lastFails [a] out = (failure a = None \<or> failure a = Some out)"
| "lastFails (a # b # acts) out = (failure a = None \<and> lastFails (b # acts) out)"

lemma lastFails_append:
  "\<forall>a\<in>set xs. failure a = None \<Longrightarrow> lastFails (xs @ ys) out = lastFails ys out"
proof (induction xs)
  case Nil
  then show ?case by simp
next
  case (Cons x xs)
  then show ?case by (cases "xs @ ys") auto
qed

lemma lastFails_quiet: "\<forall>a\<in>set xs. failure a = None \<Longrightarrow> lastFails xs out"
  using lastFails_append [of xs "[]" out] by simp

lemma lastFails_split:
  "lastFails (pre @ a # post) out \<Longrightarrow> failure a \<noteq> None \<Longrightarrow> post = [] \<and> failure a = Some out"
proof (induction pre)
  case Nil
  then show ?case by (cases post) auto
next
  case (Cons x pre)
  then show ?case by (cases "pre @ a # post") auto
qed

lemma dispatch_actions:
  assumes "dispatch request shouldAnalyse res text' h acts = (r, text1, h1, acts1)"
  shows "\<exists>new. acts1 = acts @ new
           \<and> (case r of None \<Rightarrow> \<forall>a\<in>set new. failure a = None
                        | Some out \<Rightarrow> lastFails new out)"
proof -
  obtain e0 h0 acts0 where n: "notify request res h acts = (e0, h0, acts0)"
    by (cases "notify request res h acts") auto
  then have a0: "acts0 = acts \<or> acts0 = acts @ [JsonCall res e0]"
    by (auto simp: notify_def split: option.splits prod.splits)
  show ?thesis
  proof (cases e0)
    case (Some e)
    with n assms have r: "r = Some (Return (Some (Errorf ''failed to process ollama response'' e)))"
      "acts1 = acts0"
      by (simp_all add: dispatch_def)
    from n Some have "acts0 = acts @ [JsonCall res (Some e)]"
      by (auto simp: notify_def split: option.splits prod.splits)
    with r show ?thesis by simp
  next
    case None
    with a0 obtain new0 where new0: "acts0 = acts @ new0" "\<forall>a\<in>set new0. failure a = None"
      by auto
    show ?thesis
    proof (cases shouldAnalyse)
      case False
      with n None assms new0 show ?thesis by (auto simp: dispatch_def)
    next
      case True
      with n None assms have d: "deliver request res text' h0 acts0 = (r, text1, h1, acts1)"
        by (simp add: dispatch_def)
      then have "(acts1 = acts0 \<and> (r = None \<or> r = Some Panic))
                 \<or> (\<exists>bs. acts1 = acts0 @ [BlockCall bs None] \<and> r = None)
                 \<or> (\<exists>bs e. acts1 = acts0 @ [BlockCall bs (Some e)]
                       \<and> r = Some (Return (Some (Errorf ''failed to process ollama response code block'' e))))"
        by (auto simp: deliver_def split: option.splits prod.splits if_splits)
      then show ?thesis
      proof (elim disjE conjE exE)
        assume "acts1 = acts0" "r = None"
        with new0 show ?thesis by simp
      next
        assume "acts1 = acts0" "r = Some Panic"
        with new0 show ?thesis by (simp add: lastFails_quiet)
      next
        fix bs assume "acts1 = acts0 @ [BlockCall bs None]" "r = None"
        with new0 show ?thesis by simp
      next
        fix bs e assume "acts1 = acts0 @ [BlockCall bs (Some e)]"
          "r = Some (Return (Some (Errorf ''failed to process ollama response code block'' e)))"
        with new0 show ?thesis by (simp add: lastFails_append)
      qed
    qed
  qed
qed

lemma Query_loop_actions:
  "Query_loop parse request shouldAnalyse scanner res text' err h acts = (out, h', acts')
     \<Longrightarrow> \<exists>new. acts' = acts @ new \<and> lastFails new out"
proof (induction parse request shouldAnalyse scanner res text' err h acts
        arbitrary: out h' acts' rule: Query_loop.induct)
  case (1 parse request shouldAnalyse scanner res text' err h acts)
  obtain ok scanner1 where sc: "Scan (SplitAt [nl]) scanner = (ok, scanner1)"
    by (cases "Scan (SplitAt [nl]) scanner") auto
  let ?acts = "acts @ [Scanned (Bytes scanner1)]"
  show ?case
  proof (cases ok)
    case False
    with sc "1.prems" have "acts' = acts" by (subst (asm) Query_loop.simps) simp
    then show ?thesis by simp
  next
    case True
    show ?thesis
    proof (cases "Err scanner1")
      case (Some e)
      with sc True "1.prems" have "acts' = ?acts" by (subst (asm) Query_loop.simps) simp
      then show ?thesis by simp
    next
      case None
      obtain ue res1 where u: "Unmarshal parse (Bytes scanner1) res = (ue, res1)"
        by (cases "Unmarshal parse (Bytes scanner1) res") auto
      show ?thesis
      proof (cases ue)
        case (Some e)
        with sc True None u "1.prems" have "acts' = ?acts" by (subst (asm) Query_loop.simps) simp
        then show ?thesis by simp
      next
        case ueN: None
        obtain r text1 h1 acts1 where
          d: "dispatch request shouldAnalyse res1 text' h ?acts = (r, text1, h1, acts1)"
          by (cases "dispatch request shouldAnalyse res1 text' h ?acts") auto
        from dispatch_actions [OF d] obtain new where
          new: "acts1 = ?acts @ new"
               "case r of None \<Rightarrow> \<forall>a\<in>set new. failure a = None | Some out \<Rightarrow> lastFails new out"
          by blast
        show ?thesis
        proof (cases r)
          case (Some stop)
          with sc True None u ueN d "1.prems" have "out = stop" "acts' = acts1"
            by (subst (asm) Query_loop.simps, simp)+
          with new Some have "acts' = acts @ (Scanned (Bytes scanner1) # new)"
            "lastFails (Scanned (Bytes scanner1) # new) out"
            using lastFails_append [of "[Scanned (Bytes scanner1)]" new out] by simp_all
          then show ?thesis by blast
        next
          case rN: None
          with sc True None u ueN d "1.prems"
          have "Query_loop parse request shouldAnalyse scanner1 res1 text1 None h1 acts1 = (out, h', acts')"
            by (subst (asm) Query_loop.simps) simp
          moreover have "\<not> \<not> ok" using True by simp
          ultimately obtain new' where new': "acts' = acts1 @ new'" "lastFails new' out"
            using "1.IH" [OF sc [symmetric] _ None u [symmetric] ueN d [symmetric] rN refl refl]
            by blast
          from new rN have q: "\<forall>a\<in>set (Scanned (Bytes scanner1) # new). failure a = None" by simp
          from new'(1) new(1) have "acts' = acts @ ((Scanned (Bytes scanner1) # new) @ new')" by simp
          moreover from lastFails_append [OF q, of new' out] new'(2)
          have "lastFails ((Scanned (Bytes scanner1) # new) @ new') out" by simp
          ultimately show ?thesis by blast
        qed
      qed
    qed
  qed
qed

section \<open>Streams and handlers used in the examples\<close>

text \<open>
  A JSON parser given by a table: the members \<^verbatim>\<open>encoding/json\<close> finds in each of the
  listed lines; any other token is not valid JSON.
\<close>

definition tableParser :: "(byte list \<times> Members) list \<Rightarrow> Parser" where
  "tableParser table data =
     (case map_of table data of None \<Rightarrow> Inl (New ''invalid character'') | Some m \<Rightarrow> Inr m)"

text \<open>The members of \<^verbatim>\<open>{"response":f}\<close>, \<^verbatim>\<open>{"done":d}\<close> and
  \<^verbatim>\<open>{"response":f,"done":d}\<close>.\<close>

definition fragmentOnly :: "string \<Rightarrow> Members" where
  "fragmentOnly f = \<lparr>m_model = Absent, m_created_at = Absent, m_response = Val f, m_done = Absent\<rparr>"

definition doneOnly :: "bool \<Rightarrow> Members" where
  "doneOnly d = \<lparr>m_model = Absent, m_created_at = Absent, m_response = Absent, m_done = Val d\<rparr>"

definition fragmentDone :: "string \<Rightarrow> bool \<Rightarrow> Members" where
  "fragmentDone f d = \<lparr>m_model = Absent, m_created_at = Absent, m_response = Val f, m_done = Val d\<rparr>"

text \<open>
  The line \<^verbatim>\<open>{"response":"..."}\<close> around an encoded fragment, and the two characters
  by which JSON writes a newline inside a string.
\<close>

definition responseLine :: "string \<Rightarrow> byte list" where
  \<open>responseLine encoded = ''{"response":"'' @ encoded @ ''"}''\<close>

definition esc_n :: string where
  "esc_n = [CHR 0x5C, CHR ''n'']"

text \<open>The event decoded from \<^verbatim>\<open>{"response":f}\<close> into an empty \<open>res\<close>.\<close>

definition fragmentEvent :: "string \<Rightarrow> Response" where
  "fragmentEvent f = \<lparr>Model = None, CreatedAt = None, Response = Some f, Done = None\<rparr>"

text \<open>A request whose \<open>OnJson\<close> always succeeds, and one whose \<open>OnCodeBlock\<close> always
  succeeds; the handlers keep no state.\<close>

definition listener :: "unit Request" where
  "listener = \<lparr>OnJson = Some (\<lambda>res h. (None, h)), OnCodeBlock = None\<rparr>"

definition blockListener :: "unit Request" where
  "blockListener = \<lparr>OnJson = None, OnCodeBlock = Some (\<lambda>blocks h. (None, h))\<rparr>"

text \<open>
  The line \<^verbatim>\<open>{"response":"...","done":...}\<close> and the event decoded from it; the
  stream of five events \<open>Hello\<close>, \<open>, \<close>, \<open>world\<close>, \<open>!\<close> and the empty last event,
  each line ended by a newline, in one chunk; a request whose \<open>OnJson\<close> counts its calls
  and fails on the second.
\<close>

definition eventLine :: "string \<Rightarrow> bool \<Rightarrow> byte list" where
  \<open>eventLine encoded d =
     ''{"response":"'' @ encoded @ ''","done":'' @ (if d then ''true'' else ''false'') @ ''}''\<close>

definition event :: "string \<Rightarrow> bool \<Rightarrow> Response" where
  "event f d = \<lparr>Model = None, CreatedAt = None, Response = Some f, Done = Some d\<rparr>"

definition helloEvents :: "(string \<times> bool) list" where
  "helloEvents = [(''Hello'', False), ('', '', False), (''world'', False), (''!'', False), ([], True)]"

definition helloParser :: Parser where
  "helloParser = tableParser (map (\<lambda>(f, d). (eventLine f d, fragmentDone f d)) helloEvents)"

definition helloBody :: Reader where
  "helloBody = chunked [concat (map (\<lambda>(f, d). eventLine f d @ [nl]) helloEvents)]"

definition stopAtSecond :: "nat Request" where
  "stopAtSecond =
     \<lparr>OnJson = Some (\<lambda>res n. (if n = 1 then Some (New ''stop now'') else None, n + 1)),
      OnCodeBlock = Some (\<lambda>blocks n. (None, n))\<rparr>"

text \<open>A stream of two events whose text opens a fence and never closes it.\<close>

definition openFenceLines :: "byte list list" where
  "openFenceLines = [responseLine (''```go'' @ esc_n), responseLine ''x'']"

definition openFenceParser :: Parser where
  "openFenceParser =
     tableParser [(responseLine (''```go'' @ esc_n), fragmentOnly ''```go\<newline>''),
                  (responseLine ''x'', fragmentOnly ''x'')]"

text \<open>A stream of two events: a closed fence \<open>a\<close>, then a fence \<open>b\<close> that is opened and
  never closed.\<close>

definition trailingFenceLines :: "byte list list" where
  "trailingFenceLines =
     [responseLine (''```a'' @ esc_n @ ''x'' @ esc_n @ ''```'' @ esc_n),
      responseLine (''```b'' @ esc_n @ ''y'')]"

definition trailingFenceParser :: Parser where
  "trailingFenceParser =
     tableParser [(responseLine (''```a'' @ esc_n @ ''x'' @ esc_n @ ''```'' @ esc_n),
                     fragmentOnly ''```a\<newline>x\<newline>```\<newline>''),
                  (responseLine (''```b'' @ esc_n @ ''y''), fragmentOnly ''```b\<newline>y'')]"

definition trailingFenceBody :: Reader where
  "trailingFenceBody = chunked [concat (map (\<lambda>l. l @ [nl]) trailingFenceLines)]"

section \<open>Claims\<close>

text \<open>
  C1 (the code does not do this).  The claim: when the underlying byte stream fails with
  an I/O error partway through, \<open>Query\<close> surfaces that error and does not return
  success.  The code checks \<^verbatim>\<open>scanner.Err()\<close> only inside the loop, after a \<open>Scan\<close> that
  returned true.  When the read fails while no unprocessed bytes are buffered (the usual
  case: the stream breaks after a complete line), \<open>Scan\<close> returns false, the loop ends and
  \<open>Query\<close> returns nil.  Here the stream delivers one complete line and then fails with
  "connection reset by peer": \<open>Query\<close> returns success.
\<close>

theorem C1_read_error_after_full_line_returns_success:
  \<open>Query (tableParser [(''{"response":"hi"}'', fragmentOnly ''hi'')]) listener
     [(''{"response":"hi"}\<newline>'', None), ([], Some (New ''connection reset by peer''))] ()
   = (Return None, (),
      [Scanned ''{"response":"hi"}'',
       JsonCall \<lparr>Model = None, CreatedAt = None, Response = Some ''hi'', Done = None\<rparr> None])\<close>
  by code_simp

text \<open>
  For comparison: when the read fails in the middle of a line, the scanner hands out the
  unfinished line as a last token, \<^verbatim>\<open>scanner.Err()\<close> is set, and \<open>Query\<close> returns
  the read error, wrapped.
\<close>

lemma read_error_inside_line_is_returned:
  \<open>Query (tableParser [(''{"response":"hi"}'', fragmentOnly ''hi'')]) listener
     [(''{"response":"hi"}\<newline>{"resp'', None), ([], Some (New ''connection reset by peer''))] ()
   = (Return (Some (Errorf ''failed to read ollama response'' (New ''connection reset by peer''))), (),
      [Scanned ''{"response":"hi"}'',
       JsonCall \<lparr>Model = None, CreatedAt = None, Response = Some ''hi'', Done = None\<rparr> None,
       Scanned ''{"resp''])\<close>
  by code_simp

text \<open>
  C2 (the code does not do this).  The claim: an event without a \<^verbatim>\<open>response\<close> member
  is processed without a fault when \<open>OnCodeBlock\<close> is registered, and nothing is appended
  for it.  Line 253 dereferences \<open>res.Response\<close> without a nil check: on the stream
  \<^verbatim>\<open>{"done":true}\<close> the pointer is nil and \<open>Query\<close> panics.
\<close>

theorem C2_event_without_fragment_panics:
  \<open>Query (tableParser [(''{"done":true}'', doneOnly True)]) blockListener
     [(''{"done":true}\<newline>'', None)] ()
   = (Panic, (), [Scanned ''{"done":true}''])\<close>
  by code_simp

text \<open>
  When an earlier event had a fragment, \<open>res\<close> still holds it (the same \<open>res\<close> is
  decoded into on every turn, and an absent member leaves its field alone), so the old
  fragment is appended once more.  Here the stream's only fragment is an opening fence with
  one line of code; the event without a fragment appends that text again, and the second
  copy closes the first: a block is delivered although no fence was ever closed.
\<close>

lemma event_without_fragment_repeats_previous:
  \<open>Query (tableParser [(responseLine (''``a'' @ esc_n @ ''b'' @ esc_n), fragmentOnly ''``a\<newline>b\<newline>''),
                        (''{"done":false}'', doneOnly False)]) blockListener
     [(responseLine (''``a'' @ esc_n @ ''b'' @ esc_n) @ ''\<newline>{"done":false}\<newline>'', None)] ()
   = (Return None, (),
      [Scanned (responseLine (''``a'' @ esc_n @ ''b'' @ esc_n)), Scanned ''{"done":false}'',
       BlockCall [\<lparr>Type = ''a'', Code = ''\<newline>b''\<rparr>] None])\<close>
  by code_simp

text \<open>
  C3 (the code does not do this).  The claim: a fence is recognised only when its opening
  and its closing marker are runs of three or more backticks; a run of exactly two
  backticks never opens or closes a block.  The comment at line 252 and the README speak
  of blocks between three backticks, but the expression of line 276 starts and ends with
  \<^verbatim>\<open>``+\<close>, one backtick short: it matches two or more.  The text
  \<^verbatim>\<open>``go\nx\n``\<close>, in which no run of backticks is longer than two, gives a block.
\<close>

theorem C3_two_backticks_open_and_close:
  "ParseCodeBlock ''``go\<newline>x\<newline>``'' = [\<lparr>Type = ''go'', Code = ''\<newline>x''\<rparr>]"
  by code_simp

text \<open>
  What the expression does accept: every block \<open>ParseCodeBlock\<close> returns stands in the
  text between a run of two or more backticks and a newline followed by a run of two or
  more backticks, and every text that holds such a fence around a non-empty tag without
  white space and a non-empty content yields at least one block.
\<close>

lemma fence_markers_have_two_or_more_backticks:
  "(\<forall>b\<in>set (ParseCodeBlock t).
      \<exists>pre m n post. 2 \<le> m \<and> 2 \<le> n
        \<and> t = pre @ replicate m tick @ Type b @ Code b @ nl # replicate n tick @ post)
   \<and> (2 \<le> j \<and> 2 \<le> k \<and> tag \<noteq> [] \<and> list_all (\<lambda>c. \<not> isSpace c) tag \<and> code \<noteq> []
        \<longrightarrow> ParseCodeBlock (before' @ replicate j tick @ tag @ code @ nl # replicate k tick @ after)
              \<noteq> [])"
proof (intro conjI ballI impI)
  fix b assume "b \<in> set (ParseCodeBlock t)"
  from block_shape [OF this]
  show "\<exists>pre m n post. 2 \<le> m \<and> 2 \<le> n
          \<and> t = pre @ replicate m tick @ Type b @ Code b @ nl # replicate n tick @ post"
    by blast
next
  assume "2 \<le> j \<and> 2 \<le> k \<and> tag \<noteq> [] \<and> list_all (\<lambda>c. \<not> isSpace c) tag \<and> code \<noteq> []"
  then show "ParseCodeBlock (before' @ replicate j tick @ tag @ code @ nl # replicate k tick @ after) \<noteq> []"
    by (intro fence_found) simp_all
qed

text \<open>Both parts at the fence \<^verbatim>\<open>``go\nx\n``\<close>.\<close>

lemma two_backtick_fence_has_the_shape:
  "(\<exists>pre m n post. 2 \<le> m \<and> 2 \<le> n
      \<and> ''``go\<newline>x\<newline>``'' = pre @ replicate m tick @ ''go'' @ ''\<newline>x'' @ nl # replicate n tick @ post)
   \<and> ParseCodeBlock ([] @ replicate 2 tick @ ''go'' @ ''\<newline>x'' @ nl # replicate 2 tick @ []) \<noteq> []"
proof -
  have mem: "\<lparr>Type = ''go'', Code = ''\<newline>x''\<rparr> \<in> set (ParseCodeBlock ''``go\<newline>x\<newline>``'')"
    by code_simp
  have hyp: "2 \<le> (2::nat) \<and> 2 \<le> (2::nat) \<and> ''go'' \<noteq> [] \<and> list_all (\<lambda>c. \<not> isSpace c) ''go''
               \<and> ''\<newline>x'' \<noteq> []"
    by (simp add: isSpace_def)
  note inst = fence_markers_have_two_or_more_backticks
     [of "''``go\<newline>x\<newline>``''" 2 2 "''go''" "''\<newline>x''" "[]" "[]"]
  from inst mem hyp show ?thesis by fastforce
qed



text \<open>The block of the second text, computed.\<close>

lemma tag_gives_back_its_last_letter:
  "ParseCodeBlock ''```python\<newline>```'' = [\<lparr>Type = ''pytho'', Code = ''n''\<rparr>]"
  by code_simp


text \<open>
  C5 (corrected).  The claim: when \<open>OnJson\<close> fails on an event, no callback fires for
  the later events, no further token is scanned, and the result of the operation is
  exactly the failure value the handler returned.  Line 246 returns
  \<^verbatim>\<open>fmt.Errorf("failed to process ollama response: %w", err)\<close>: a new error that wraps
  the handler's.  As amended: whenever a call of \<open>OnJson\<close> returns a failure \<open>e\<close>, that
  call is the last action of \<open>Query\<close> (no token is scanned and no handler is called after
  it) and the result is \<open>e\<close> wrapped with the message "failed to process ollama response".
\<close>

theorem C5_handler_failure_ends_the_stream_and_is_returned_wrapped:
  assumes "Query parse request body h = (out, h', acts)"
    and "acts = pre @ JsonCall res (Some e) # post"
  shows "post = [] \<and> out = Return (Some (Errorf ''failed to process ollama response'' e))"
proof -
  from assms(1) Query_loop_actions [of parse request _ _ _ "[]" None h "[]" out h' acts]
  have "lastFails acts out" by (simp add: Query_def Let_def)
  from lastFails_split [OF this [unfolded assms(2)]] show ?thesis by simp
qed

text \<open>The amended claim on the stream of five events, \<open>OnJson\<close> failing on the second.\<close>

theorem C5_witness:
  "fst (Query helloParser stopAtSecond helloBody 0)
     = Return (Some (Errorf ''failed to process ollama response'' (New ''stop now'')))"
proof -
  have tr: "snd (snd (Query helloParser stopAtSecond helloBody 0))
     = [Scanned (eventLine ''Hello'' False), JsonCall (event ''Hello'' False) None,
        Scanned (eventLine '', '' False)] @ JsonCall (event '', '' False) (Some (New ''stop now'')) # []"
    by code_simp
  obtain out h' where q: "Query helloParser stopAtSecond helloBody 0
     = (out, h', [Scanned (eventLine ''Hello'' False), JsonCall (event ''Hello'' False) None,
        Scanned (eventLine '', '' False)] @ JsonCall (event '', '' False) (Some (New ''stop now'')) # [])"
    using tr by (cases "Query helloParser stopAtSecond helloBody 0") auto
  from C5_handler_failure_ends_the_stream_and_is_returned_wrapped [OF q refl]
  have "out = Return (Some (Errorf ''failed to process ollama response'' (New ''stop now'')))"
    by simp
  with q show ?thesis by simp
qed

text \<open>The claim as stated fails there: the result is the wrapped error, not the handler's.\<close>

theorem C5_result_is_not_the_handler_error_itself:
  "Query helloParser stopAtSecond helloBody 0
     = (Return (Some (Errorf ''failed to process ollama response'' (New ''stop now''))), 2,
        [Scanned (eventLine ''Hello'' False), JsonCall (event ''Hello'' False) None,
         Scanned (eventLine '', '' False), JsonCall (event '', '' False) (Some (New ''stop now''))])
   \<and> fst (Query helloParser stopAtSecond helloBody 0) \<noteq> Return (Some (New ''stop now''))"
  by code_simp

text \<open>With a handler that never fails the five events arrive in order.\<close>

lemma hello_stream_events:
  "Query helloParser listener helloBody ()
     = (Return None, (),
        [Scanned (eventLine ''Hello'' False), JsonCall (event ''Hello'' False) None,
         Scanned (eventLine '', '' False), JsonCall (event '', '' False) None,
         Scanned (eventLine ''world'' False), JsonCall (event ''world'' False) None,
         Scanned (eventLine ''!'' False), JsonCall (event ''!'' False) None,
         Scanned (eventLine [] True), JsonCall (event [] True) None])"
  by code_simp

text \<open>
  C6 (corrected).  The claim: when the buffer holds closed fences followed by an open
  fence, the open fence's text stays in the buffer after the batch is extracted, and a
  later fragment that closes it still yields that block.  Line 257 clears the whole text
  (\<^verbatim>\<open>text = ""\<close>), the open fence included.  As amended: when an append finds closed
  fences, the buffer is empty afterwards, so the next append scans the later fragment
  alone and yields exactly the blocks that fragment holds by itself.
\<close>

theorem C6_buffer_is_emptied_whole:
  assumes "ParseCodeBlock (text' @ fragment) \<noteq> []"
  shows "fst (analyse text' fragment) = []
         \<and> analyse (fst (analyse text' fragment)) later = analyse [] later
         \<and> snd (analyse [] later) = ParseCodeBlock later"
  using assms by (simp add: analyse_cases)

text \<open>The amended claim where a closed fence \<open>a\<close> is followed by an open fence \<open>b\<close>.\<close>

theorem C6_witness:
  "fst (analyse [] ''```a\<newline>x\<newline>```\<newline>```b\<newline>y'') = []
   \<and> analyse (fst (analyse [] ''```a\<newline>x\<newline>```\<newline>```b\<newline>y'')) ''\<newline>```'' = analyse [] ''\<newline>```''
   \<and> snd (analyse [] ''\<newline>```'') = ParseCodeBlock ''\<newline>```''"
proof -
  have "ParseCodeBlock ([] @ ''```a\<newline>x\<newline>```\<newline>```b\<newline>y'') \<noteq> []"
    by code_simp
  from C6_buffer_is_emptied_whole [OF this, of "''\<newline>```''"] show ?thesis .
qed

text \<open>
  The claim as stated fails: block \<open>a\<close> is extracted, the buffer is emptied, the
  fragment that closes fence \<open>b\<close> then stands alone and yields nothing, although the
  whole text holds both blocks.
\<close>

theorem C6_open_fence_is_lost_on_reset:
  "analyse [] ''```a\<newline>x\<newline>```\<newline>```b\<newline>y'' = ([], [\<lparr>Type = ''a'', Code = ''\<newline>x''\<rparr>])
   \<and> analyse (fst (analyse [] ''```a\<newline>x\<newline>```\<newline>```b\<newline>y'')) ''\<newline>```'' = (''\<newline>```'', [])
   \<and> ParseCodeBlock (''```a\<newline>x\<newline>```\<newline>```b\<newline>y'' @ ''\<newline>```'')
       = [\<lparr>Type = ''a'', Code = ''\<newline>x''\<rparr>, \<lparr>Type = ''b'', Code = ''\<newline>y''\<rparr>]"
  by code_simp

text \<open>
  C7 (corrected).  The claim: a closed fence whose opening marker is followed at once by a
  newline still yields a block, with the empty string as language tag.  The first group of
  the expression is \<^verbatim>\<open>(\S+)\<close>: at least one character that is not white space.  As
  amended: the language tag of every block is non-empty and has no white space in it.
\<close>

theorem C7_language_tag_is_never_empty:
  "\<forall>b\<in>set (ParseCodeBlock t). Type b \<noteq> [] \<and> list_all (\<lambda>c. \<not> isSpace c) (Type b)"
proof
  fix b assume "b \<in> set (ParseCodeBlock t)"
  from block_shape [OF this] show "Type b \<noteq> [] \<and> list_all (\<lambda>c. \<not> isSpace c) (Type b)"
    by blast
qed

text \<open>The amended claim at the block found in \<^verbatim>\<open>```\ncode\n```\<close>.\<close>

theorem C7_witness:
  "''`'' \<noteq> [] \<and> list_all (\<lambda>c. \<not> isSpace c) ''`''"
proof -
  have mem: "\<lparr>Type = ''`'', Code = ''\<newline>code''\<rparr> \<in> set (ParseCodeBlock ''```\<newline>code\<newline>```'')"
    by code_simp
  from C7_language_tag_is_never_empty [of "''```\<newline>code\<newline>```''", rule_format, OF mem]
  show ?thesis by simp
qed

text \<open>
  The claim as stated fails: after three backticks and a newline the search gives the
  opening marker two of the backticks and takes the third as the tag; after two backticks
  and a newline there is no block at all.
\<close>

theorem C7_tag_after_bare_fence_is_a_backtick:
  "ParseCodeBlock ''```\<newline>code\<newline>```'' = [\<lparr>Type = ''`'', Code = ''\<newline>code''\<rparr>]
   \<and> ParseCodeBlock ''``\<newline>code\<newline>``'' = []"
  by code_simp

text \<open>
  C8.  For every non-empty separator and every byte sequence, the tokens the scanner gives
  with \<open>SplitAt\<close> do not depend on how the bytes arrive: a stream that delivers them in
  any chunks gives the same tokens as the stream that delivers them in one chunk, namely
  the tokens of the whole sequence.  A separator lying across chunk boundaries is found
  like any other.  The chunks may be empty, but not more than a hundred in a row, where
  \<^verbatim>\<open>bufio.Scanner\<close> gives up with \<^verbatim>\<open>io.ErrNoProgress\<close>.
\<close>

theorem C8_tokens_do_not_depend_on_chunking:
  assumes "sep \<noteq> []" and "calm 0 chunks"
  shows "scanAll (SplitAt sep) (NewSplitScanner (chunked chunks) sep)
           = scanAll (SplitAt sep) (NewSplitScanner (chunked [concat chunks]) sep)
         \<and> scanAll (SplitAt sep) (NewSplitScanner (chunked chunks) sep)
           = Some (tokensOf sep (concat chunks))"
proof -
  have one: "calm 0 [concat chunks]" by (simp add: maxConsecutiveEmptyReads_def)
  have "scanAll (SplitAt sep) (NewSplitScanner (chunked cs) sep) = Some (tokensOf sep (concat cs))"
    if "calm 0 cs" for cs
    using scanAll_tokens [OF assms(1), of "NewSplitScanner (chunked cs) sep" cs] that
    by (simp add: NewSplitScanner_def NewScanner_def)
  from this [OF assms(2)] this [OF one] show ?thesis by simp
qed

text \<open>The separator \<^verbatim>\<open>||\<close> cut in two by both chunk boundaries.\<close>

theorem C8_witness:
  "scanAll (SplitAt ''||'') (NewSplitScanner (chunked [''a|'', ''|b|'', ''|c'']) ''||'')
     = scanAll (SplitAt ''||'') (NewSplitScanner (chunked [''a||b||c'']) ''||'')
   \<and> scanAll (SplitAt ''||'') (NewSplitScanner (chunked [''a|'', ''|b|'', ''|c'']) ''||'')
     = Some [''a'', ''b'', ''c'']"
proof -
  have sep: "''||'' \<noteq> []" by simp
  have calm: "calm 0 [''a|'', ''|b|'', ''|c'']" by simp
  have toks: "tokensOf ''||'' ''a||b||c'' = [''a'', ''b'', ''c'']"
    by code_simp
  have whole: "concat [''a|'', ''|b|'', ''|c''] = ''a||b||c''" by simp
  from C8_tokens_do_not_depend_on_chunking [OF sep calm] show ?thesis
    unfolding toks whole .
qed

text \<open>The same tokens, computed by running the scanner.\<close>

lemma separator_across_chunks:
  "scanAll (SplitAt ''||'') (NewSplitScanner (chunked [''a|'', ''|b|'', ''|c'']) ''||'')
     = Some [''a'', ''b'', ''c'']"
  by code_simp

text \<open>
  C9.  On every append of a fragment (with \<open>OnCodeBlock\<close> registered) the whole buffer,
  old text and fragment, is parsed.  If no closed fence is found, nothing is delivered and
  the buffer is the old text with the fragment appended.  If closed fences are found, all
  of them go to \<open>OnCodeBlock\<close> in one call and the buffer is empty afterwards.  The
  blocks are the fences of the buffer in the order of their positions: each fence starts
  at or after the end of the one before.
\<close>

theorem C9_append_rescans_whole_buffer:
  assumes "Response res = Some fragment" and "OnCodeBlock request = Some g"
  shows
    "(ParseCodeBlock (text' @ fragment) = [] \<longrightarrow>
        deliver request res text' h acts = (None, text' @ fragment, h, acts))
     \<and> (ParseCodeBlock (text' @ fragment) \<noteq> [] \<longrightarrow>
        deliver request res text' h acts =
          (case g (ParseCodeBlock (text' @ fragment)) h of
             (e, h1) \<Rightarrow>
               (map_option (\<lambda>x. Return (Some (Errorf ''failed to process ollama response code block'' x))) e,
                [], h1, acts @ [BlockCall (ParseCodeBlock (text' @ fragment)) e])))
     \<and> ParseCodeBlock (text' @ fragment) = map (blockOf (text' @ fragment)) (fences (text' @ fragment))
     \<and> sorted_wrt before (fences (text' @ fragment))"
proof (intro conjI impI)
  assume "ParseCodeBlock (text' @ fragment) = []"
  with assms show "deliver request res text' h acts = (None, text' @ fragment, h, acts)"
    by (simp add: deliver_def analyse_cases)
next
  assume ne: "ParseCodeBlock (text' @ fragment) \<noteq> []"
  obtain e h1 where g: "g (ParseCodeBlock (text' @ fragment)) h = (e, h1)"
    by (cases "g (ParseCodeBlock (text' @ fragment)) h") auto
  with assms ne
  show "deliver request res text' h acts =
          (case g (ParseCodeBlock (text' @ fragment)) h of
             (e, h1) \<Rightarrow>
               (map_option (\<lambda>x. Return (Some (Errorf ''failed to process ollama response code block'' x))) e,
                [], h1, acts @ [BlockCall (ParseCodeBlock (text' @ fragment)) e]))"
    by (cases e) (simp_all add: deliver_def analyse_cases)
next
  show "ParseCodeBlock (text' @ fragment) = map (blockOf (text' @ fragment)) (fences (text' @ fragment))"
    by (rule ParseCodeBlock_fences)
next
  show "sorted_wrt before (fences (text' @ fragment))" by (rule fences_sorted)
qed

text \<open>
  An append that closes nothing, an append that closes two fences at once, and the
  positions of those two fences.
\<close>

theorem C9_witness:
  "deliver blockListener (fragmentEvent ''x\<newline>'') ''```go\<newline>'' () []
     = (None, ''```go\<newline>x\<newline>'', (), [])
   \<and> deliver blockListener (fragmentEvent ''```\<newline>'') ''```py\<newline>a\<newline>```\<newline>```sh\<newline>b\<newline>'' () []
     = (None, [], (),
        [BlockCall [\<lparr>Type = ''py'', Code = ''\<newline>a''\<rparr>, \<lparr>Type = ''sh'', Code = ''\<newline>b''\<rparr>] None])
   \<and> fences ''```py\<newline>a\<newline>```\<newline>```sh\<newline>b\<newline>```\<newline>''
     = [(0, [1, 2, 2, 2, 1, 1, 2]), (12, [1, 2, 2, 2, 1, 1, 2])]"
proof -
  have r1: "Response (fragmentEvent ''x\<newline>'') = Some ''x\<newline>''"
   and r2: "Response (fragmentEvent ''```\<newline>'') = Some ''```\<newline>''"
    by (simp_all add: fragmentEvent_def)
  have g: "OnCodeBlock blockListener = Some (\<lambda>blocks h. (None, h))"
    by (simp add: blockListener_def)
  have p1: "ParseCodeBlock (''```go\<newline>'' @ ''x\<newline>'') = []"
    by code_simp
  have p2: "ParseCodeBlock (''```py\<newline>a\<newline>```\<newline>```sh\<newline>b\<newline>'' @ ''```\<newline>'')
            = [\<lparr>Type = ''py'', Code = ''\<newline>a''\<rparr>, \<lparr>Type = ''sh'', Code = ''\<newline>b''\<rparr>]"
    by code_simp
  have f: "fences ''```py\<newline>a\<newline>```\<newline>```sh\<newline>b\<newline>```\<newline>''
     = [(0, [1, 2, 2, 2, 1, 1, 2]), (12, [1, 2, 2, 2, 1, 1, 2])]"
    by code_simp
  from C9_append_rescans_whole_buffer [OF r1 g, of "''```go\<newline>''" "()" "[]"] p1
  have a: "deliver blockListener (fragmentEvent ''x\<newline>'') ''```go\<newline>'' () []
     = (None, ''```go\<newline>x\<newline>'', (), [])"
    by simp
  from C9_append_rescans_whole_buffer [OF r2 g, of "''```py\<newline>a\<newline>```\<newline>```sh\<newline>b\<newline>''" "()" "[]"] p2
  have b: "deliver blockListener (fragmentEvent ''```\<newline>'') ''```py\<newline>a\<newline>```\<newline>```sh\<newline>b\<newline>'' () []
     = (None, [], (),
        [BlockCall [\<lparr>Type = ''py'', Code = ''\<newline>a''\<rparr>, \<lparr>Type = ''sh'', Code = ''\<newline>b''\<rparr>] None])"
    by simp
  from a b f show ?thesis by blast
qed

text \<open>
  C10 (the code does not do this).  The claim: when the accumulated text of a stream ends
  with an opening marker that is never closed, \<open>OnCodeBlock\<close> is never called for that
  fence and \<open>Query\<close> returns success.  The same \<open>res\<close> is decoded into on every turn
  and an absent \<^verbatim>\<open>response\<close> member leaves its field alone, so line 253 appends the
  fragment of the event before once more.  Here the only fragment of the stream opens a
  fence \<open>a\<close> with one line of code, and the text of the stream holds no closed fence; the
  last event, \<^verbatim>\<open>{"done":true}\<close>, appends that fragment a second time, the opening marker
  of the copy closes the fence, and \<open>OnCodeBlock\<close> receives block \<open>a\<close>.
\<close>

theorem C10_open_fence_is_delivered_after_event_without_fragment:
  \<open>ParseCodeBlock ''```a\<newline>b\<newline>'' = []
   \<and> Query (tableParser [(responseLine (''```a'' @ esc_n @ ''b'' @ esc_n), fragmentOnly ''```a\<newline>b\<newline>''),
                          (''{"done":true}'', doneOnly True)]) blockListener
       [(responseLine (''```a'' @ esc_n @ ''b'' @ esc_n) @ ''\<newline>{"done":true}\<newline>'', None)] ()
     = (Return None, (),
        [Scanned (responseLine (''```a'' @ esc_n @ ''b'' @ esc_n)), Scanned ''{"done":true}'',
         BlockCall [\<lparr>Type = ''a'', Code = ''\<newline>b''\<rparr>] None])\<close>
  by code_simp

text \<open>
  What does hold: on a stream that ends without a read error, whose lines all decode to
  events with a fragment, and with handlers that never fail, \<open>Query\<close> returns success,
  whatever is left in the buffer when the stream ends.  Every batch given to
  \<open>OnCodeBlock\<close> is a non-empty list of blocks that \<open>ParseCodeBlock\<close> found in the
  concatenated fragments of consecutive events, so each of its blocks stands between an
  opening and a closing marker.  When the accumulated text never holds a closed fence,
  \<open>OnCodeBlock\<close> is never called.
\<close>

lemma open_fence_is_dropped_when_every_event_has_a_fragment:
  assumes "calm 0 chunks"
    and "\<forall>tok\<in>set (tokensOf [nl] (concat chunks)). \<exists>m f. parse tok = Inr m \<and> m_response m = Val f"
    and "\<forall>f r h. OnJson request = Some f \<longrightarrow> fst (f r h) = None"
    and "OnCodeBlock request = Some g" and "\<forall>bs h. fst (g bs h) = None"
  shows "fst (Query parse request (chunked chunks) h) = Return None
    \<and> (\<forall>bs e. BlockCall bs e \<in> set (snd (snd (Query parse request (chunked chunks) h))) \<longrightarrow>
          e = None \<and> bs \<noteq> []
          \<and> (\<exists>j k. bs = ParseCodeBlock
                (concat (map (fragmentOf parse) (take k (drop j (tokensOf [nl] (concat chunks))))))))
    \<and> ((\<forall>k\<le>length (tokensOf [nl] (concat chunks)).
           ParseCodeBlock (concat (map (fragmentOf parse) (take k (tokensOf [nl] (concat chunks))))) = [])
        \<longrightarrow> (\<forall>bs e. BlockCall bs e \<notin> set (snd (snd (Query parse request (chunked chunks) h)))))"
proof -
  let ?toks = "tokensOf [nl] (concat chunks)"
  have q: "Query parse request (chunked chunks) h
             = onTokens parse request True ?toks emptyResponse [] None h []"
    by (simp add: Query_tokens [OF assms(1)] assms(4))
  note quiet = onTokens_quiet [OF assms(3,4,5) assms(2), of emptyResponse "[]" h "[]"]
  from quiet have A: "fst (Query parse request (chunked chunks) h) = Return None"
    unfolding q by blast
  have B: "e = None \<and> bs \<noteq> []
          \<and> (\<exists>j k. bs = ParseCodeBlock (concat (map (fragmentOf parse) (take k (drop j ?toks)))))"
    if "BlockCall bs e \<in> set (snd (snd (Query parse request (chunked chunks) h)))" for bs e
  proof -
    from that quiet have
      "e = None \<and> bs \<noteq> []
         \<and> ((\<exists>k\<le>length ?toks. bs = ParseCodeBlock ([] @ concat (map (fragmentOf parse) (take k ?toks))))
             \<or> (\<exists>j k. bs = ParseCodeBlock (concat (map (fragmentOf parse) (take k (drop j ?toks))))))"
      unfolding q by simp
    then show ?thesis by (metis append_Nil drop0)
  qed
  have C: "BlockCall bs e \<notin> set (snd (snd (Query parse request (chunked chunks) h)))"
    if opn: "\<forall>k\<le>length ?toks. ParseCodeBlock (concat (map (fragmentOf parse) (take k ?toks))) = []"
    for bs e
  proof
    assume "BlockCall bs e \<in> set (snd (snd (Query parse request (chunked chunks) h)))"
    with onTokens_open [OF assms(3,4,5) assms(2), of "[]" bs e emptyResponse h "[]"] opn
    show False unfolding q by simp
  qed
  from A B C show ?thesis by blast
qed

text \<open>
  Two streams: one whose text opens a fence and ends (success, and no call of
  \<open>OnCodeBlock\<close>), and one that closes a fence \<open>a\<close> and then leaves a fence \<open>b\<close> open
  (success, and the batch delivered is the block \<open>a\<close>, parsed from fragments of the
  stream).
\<close>

lemma open_fence_is_dropped_examples:
  "(fst (Query openFenceParser blockListener
           (chunked [responseLine (''```go'' @ esc_n) @ [nl] @ responseLine ''x'' @ [nl]]) ()) = Return None
    \<and> (\<forall>bs e. BlockCall bs e \<notin> set (snd (snd (Query openFenceParser blockListener
           (chunked [responseLine (''```go'' @ esc_n) @ [nl] @ responseLine ''x'' @ [nl]]) ())))))
   \<and> (fst (Query trailingFenceParser blockListener trailingFenceBody ()) = Return None
    \<and> (\<exists>j k. [\<lparr>Type = ''a'', Code = ''\<newline>x''\<rparr>]
           = ParseCodeBlock (concat (map (fragmentOf trailingFenceParser) (take k (drop j trailingFenceLines))))))"
proof -
  have part1:
    "fst (Query openFenceParser blockListener
            (chunked [responseLine (''```go'' @ esc_n) @ [nl] @ responseLine ''x'' @ [nl]]) ()) = Return None
     \<and> (\<forall>bs e. BlockCall bs e \<notin> set (snd (snd (Query openFenceParser blockListener
            (chunked [responseLine (''```go'' @ esc_n) @ [nl] @ responseLine ''x'' @ [nl]]) ()))))"
  proof -
    let ?chunks = "[responseLine (''```go'' @ esc_n) @ [nl] @ responseLine ''x'' @ [nl]]"
    have calm: "calm 0 ?chunks" by (simp add: responseLine_def)
    have toks: "tokensOf [nl] (concat ?chunks) = openFenceLines"
      by code_simp
    have frags: "map (fragmentOf openFenceParser) openFenceLines = [''```go\<newline>'', ''x'']"
      by code_simp
    have decode: "\<forall>tok\<in>set (tokensOf [nl] (concat ?chunks)). \<exists>m f. openFenceParser tok = Inr m \<and> m_response m = Val f"
      unfolding toks
      by (simp add: openFenceLines_def openFenceParser_def tableParser_def fragmentOnly_def responseLine_def esc_n_def)
    have json: "\<forall>f r h. OnJson blockListener = Some f \<longrightarrow> fst (f r h) = None"
      by (simp add: blockListener_def)
    have g: "OnCodeBlock blockListener = Some (\<lambda>blocks h. (None, h))"
      by (simp add: blockListener_def)
    have gok: "\<forall>bs h. fst ((\<lambda>blocks h. (None, h)) bs (h::unit)) = (None :: goerror option)"
      by simp
    have p0: "ParseCodeBlock [] = []" and p1: "ParseCodeBlock ''```go\<newline>'' = []"
      and p2: "ParseCodeBlock ''```go\<newline>x'' = []"
      by code_simp+
    have opn: "\<forall>k\<le>length (tokensOf [nl] (concat ?chunks)).
             ParseCodeBlock (concat (map (fragmentOf openFenceParser) (take k (tokensOf [nl] (concat ?chunks))))) = []"
    proof (intro allI impI)
      fix k assume "k \<le> length (tokensOf [nl] (concat ?chunks))"
      then have "k = 0 \<or> k = 1 \<or> k = 2" unfolding toks by (auto simp: openFenceLines_def)
      then show "ParseCodeBlock (concat (map (fragmentOf openFenceParser) (take k (tokensOf [nl] (concat ?chunks))))) = []"
        unfolding toks take_map [symmetric] frags
        by (elim disjE) (simp_all add: p0 p1 p2 numeral_2_eq_2)
    qed
    from open_fence_is_dropped_when_every_event_has_a_fragment [OF calm decode json g gok, of "()"] opn
    show ?thesis by blast
  qed
  have part2:
    "fst (Query trailingFenceParser blockListener trailingFenceBody ()) = Return None
     \<and> (\<exists>j k. [\<lparr>Type = ''a'', Code = ''\<newline>x''\<rparr>]
            = ParseCodeBlock (concat (map (fragmentOf trailingFenceParser) (take k (drop j trailingFenceLines)))))"
  proof -
    let ?chunks = "[concat (map (\<lambda>l. l @ [nl]) trailingFenceLines)]"
    have calm: "calm 0 ?chunks" by (simp add: trailingFenceLines_def responseLine_def)
    have toks: "tokensOf [nl] (concat ?chunks) = trailingFenceLines"
      by code_simp
    have decode: "\<forall>tok\<in>set (tokensOf [nl] (concat ?chunks)).
                    \<exists>m f. trailingFenceParser tok = Inr m \<and> m_response m = Val f"
      unfolding toks
      by (simp add: trailingFenceLines_def trailingFenceParser_def tableParser_def fragmentOnly_def
            responseLine_def esc_n_def)
    have json: "\<forall>f r h. OnJson blockListener = Some f \<longrightarrow> fst (f r h) = None"
      by (simp add: blockListener_def)
    have g: "OnCodeBlock blockListener = Some (\<lambda>blocks h. (None, h))"
      by (simp add: blockListener_def)
    have gok: "\<forall>bs h. fst ((\<lambda>blocks h. (None, h)) bs (h::unit)) = (None :: goerror option)"
      by simp
    have mem: "BlockCall [\<lparr>Type = ''a'', Code = ''\<newline>x''\<rparr>] None
                 \<in> set (snd (snd (Query trailingFenceParser blockListener (chunked ?chunks) ())))"
      by code_simp
    note inst = open_fence_is_dropped_when_every_event_has_a_fragment [OF calm decode json g gok, of "()"]
    from inst have "fst (Query trailingFenceParser blockListener (chunked ?chunks) ()) = Return None"
      by blast
    moreover from inst mem
    have "\<exists>j k. [\<lparr>Type = ''a'', Code = ''\<newline>x''\<rparr>]
            = ParseCodeBlock (concat (map (fragmentOf trailingFenceParser)
                 (take k (drop j (tokensOf [nl] (concat ?chunks))))))"
      by blast
    ultimately show ?thesis unfolding toks trailingFenceBody_def by blast
  qed
  from part1 part2 show ?thesis by (rule conjI)
qed

text \<open>The second stream, run: fence \<open>b\<close> is never delivered and nothing is reported.\<close>

lemma trailing_fence_run:
  "Query trailingFenceParser blockListener trailingFenceBody ()
     = (Return None, (),
        [Scanned (trailingFenceLines ! 0), BlockCall [\<lparr>Type = ''a'', Code = ''\<newline>x''\<rparr>] None,
         Scanned (trailingFenceLines ! 1)])"
  by code_simp

end
